theory Spec2Isabelle
  imports Complex_Main "HOL-Library.AList"
begin

section \<open>JavaScript numbers\<close>

text \<open>
  The analysis endpoint computes with JavaScript numbers, that is IEEE 754 binary64
  values under round-to-nearest, ties-to-even. A number is a finite real, an infinity
  or NaN; the sign of zero is not kept (it is invisible in the JSON report and in every
  comparison of the program).
\<close>

datatype jsnum = Num real | PosInf | NegInf | NaN

text \<open>Rounding a real to the nearest integer, ties to the even one.\<close>

definition rne :: "real \<Rightarrow> int" where
  "rne y = (let f = \<lfloor>y\<rfloor>; d = y - of_int f in
     if d < 1 / 2 then f else if 1 / 2 < d then f + 1 else if even f then f else f + 1)"

text \<open>
  The binary exponent of a positive real: \<open>expo n x 0\<close> is the \<open>e\<close> with
  \<open>2 powi e \<le> x < 2 powi (e + 1)\<close>, searched for at most \<open>n\<close> steps up or down.
\<close>

fun expo :: "nat \<Rightarrow> real \<Rightarrow> int \<Rightarrow> int" where
  "expo 0 x e = e"
| "expo (Suc n) x e =
     (if 2 \<le> x then expo n (x / 2) (e + 1)
      else if x < 1 then expo n (2 * x) (e - 1)
      else e)"

text \<open>
  \<open>fl x\<close> is the binary64 value nearest to \<open>x\<close>: 53 significant bits, the least
  exponent \<open>-1022\<close> (below it the values are subnormal, spaced \<open>2 powi (-1074)\<close>
  apart), and an infinity once the rounded magnitude reaches \<open>2 powi 1024\<close>.
\<close>

definition fl :: "real \<Rightarrow> jsnum" where
  "fl x =
     (if x = 0 then Num 0
      else let e = max (expo 1100 \<bar>x\<bar> 0) (- 1022);
               q = 2 powi (e - 52);
               r = of_int (rne (x / q)) * q
           in if 2 powi 1024 \<le> \<bar>r\<bar> then (if 0 < x then PosInf else NegInf) else Num r)"

fun js_add :: "jsnum \<Rightarrow> jsnum \<Rightarrow> jsnum" where
  "js_add (Num a) (Num b) = fl (a + b)"
| "js_add NaN _ = NaN"
| "js_add _ NaN = NaN"
| "js_add PosInf NegInf = NaN"
| "js_add NegInf PosInf = NaN"
| "js_add PosInf _ = PosInf"
| "js_add _ PosInf = PosInf"
| "js_add NegInf _ = NegInf"
| "js_add _ NegInf = NegInf"

fun js_sub :: "jsnum \<Rightarrow> jsnum \<Rightarrow> jsnum" where
  "js_sub (Num a) (Num b) = fl (a - b)"
| "js_sub NaN _ = NaN"
| "js_sub _ NaN = NaN"
| "js_sub PosInf PosInf = NaN"
| "js_sub NegInf NegInf = NaN"
| "js_sub PosInf _ = PosInf"
| "js_sub _ NegInf = PosInf"
| "js_sub NegInf _ = NegInf"
| "js_sub _ PosInf = NegInf"

fun js_mul :: "jsnum \<Rightarrow> jsnum \<Rightarrow> jsnum" where
  "js_mul (Num a) (Num b) = fl (a * b)"
| "js_mul NaN _ = NaN"
| "js_mul _ NaN = NaN"
| "js_mul PosInf (Num b) = (if b = 0 then NaN else if 0 < b then PosInf else NegInf)"
| "js_mul NegInf (Num b) = (if b = 0 then NaN else if 0 < b then NegInf else PosInf)"
| "js_mul (Num a) PosInf = (if a = 0 then NaN else if 0 < a then PosInf else NegInf)"
| "js_mul (Num a) NegInf = (if a = 0 then NaN else if 0 < a then NegInf else PosInf)"
| "js_mul PosInf PosInf = PosInf"
| "js_mul NegInf NegInf = PosInf"
| "js_mul PosInf NegInf = NegInf"
| "js_mul NegInf PosInf = NegInf"

fun js_div :: "jsnum \<Rightarrow> jsnum \<Rightarrow> jsnum" where
  "js_div (Num a) (Num b) =
     (if b = 0 then (if a = 0 then NaN else if 0 < a then PosInf else NegInf)
      else fl (a / b))"
| "js_div NaN _ = NaN"
| "js_div _ NaN = NaN"
| "js_div (Num a) _ = Num 0"
| "js_div PosInf (Num b) = (if 0 \<le> b then PosInf else NegInf)"
| "js_div NegInf (Num b) = (if 0 \<le> b then NegInf else PosInf)"
| "js_div _ _ = NaN"

text \<open>\<open>Math.round\<close>: the nearest integer, a tie going up.\<close>

fun Math_round :: "jsnum \<Rightarrow> jsnum" where
  "Math_round (Num a) = Num (of_int \<lfloor>a + 1 / 2\<rfloor>)"
| "Math_round x = x"

text \<open>The comparison \<open>a > b\<close> of two numbers: false as soon as one is NaN.\<close>

fun js_gt :: "jsnum \<Rightarrow> jsnum \<Rightarrow> bool" where
  "js_gt (Num a) (Num b) = (b < a)"
| "js_gt NaN _ = False"
| "js_gt _ NaN = False"
| "js_gt PosInf PosInf = False"
| "js_gt PosInf _ = True"
| "js_gt NegInf _ = False"
| "js_gt _ NegInf = True"
| "js_gt _ PosInf = False"

text \<open>
  Counters and array lengths are numbers too, but they stay far below \<open>2 ^ 53\<close> (an
  array has fewer than \<open>2 ^ 32\<close> elements), where every integer is a binary64 value:
  they are natural numbers here, converted when they enter a division.
\<close>

definition js_nat :: "nat \<Rightarrow> jsnum" where
  "js_nat n = Num (real n)"

section \<open>Tickets and the host environment\<close>

text \<open>
  One element of \<open>SampleData['results']\<close> (\<open>src/api/types.ts\<close>), with the fields the
  endpoint reads. The handler guards \<open>satisfaction_rating\<close> with \<open>?.\<close>, so the
  rating and its score may be missing.
\<close>

record satisfaction_rating =
  score :: "string option"

record issue =
  id' :: int
  created :: string
  updated :: string
  due :: string
  status :: string
  type :: string
  priority :: string
  satisfaction_rating :: "satisfaction_rating option"

text \<open>
  What the handler takes from the JavaScript host: \<open>String.prototype.toLowerCase\<close>,
  the time value of \<open>new Date(s)\<close> for a string (\<open>None\<close> for an Invalid Date, whose
  time value is NaN) and the time value of \<open>new Date()\<close>, the instant of the call.
\<close>

record host =
  toLowerCase :: "string \<Rightarrow> string"
  newDate :: "string \<Rightarrow> int option"
  clock :: int

text \<open>\<open>d.getTime()\<close>; a time value is an integer of magnitude at most \<open>8.64e15\<close>.\<close>

definition getTime :: "int option \<Rightarrow> jsnum" where
  "getTime d = (case d of None \<Rightarrow> NaN | Some t \<Rightarrow> Num (of_int t))"

text \<open>\<open>a <= b\<close> and \<open>a > b\<close> on Date objects compare the time values.\<close>

definition date_le :: "int option \<Rightarrow> int option \<Rightarrow> bool" where
  "date_le a b = (case (a, b) of (Some x, Some y) \<Rightarrow> x \<le> y | _ \<Rightarrow> False)"

definition date_gt :: "int option \<Rightarrow> int option \<Rightarrow> bool" where
  "date_gt a b = (case (a, b) of (Some x, Some y) \<Rightarrow> y < x | _ \<Rightarrow> False)"

text \<open>
  \<open>issue.satisfaction_rating?.score\<close> where the handler tests it for truthiness: the
  score when it is there and not the empty string.
\<close>

definition ratingScore :: "issue \<Rightarrow> string option" where
  "ratingScore issue =
     (case satisfaction_rating issue of
        None \<Rightarrow> None
      | Some r \<Rightarrow> (case score r of None \<Rightarrow> None | Some s \<Rightarrow> if s = [] then None else Some s))"

section \<open>Objects used as dictionaries\<close>

text \<open>
  The handler counts and groups in plain objects (\<open>Record<string, ...>\<close>). Such an
  object is the list of its own properties in the order of their creation. A read
  \<open>obj[key]\<close> that finds no own property continues in \<open>Object.prototype\<close>, whose
  properties are built-in functions, and the accessor \<open>__proto__\<close>;
  \<open>inheritedText key\<close> is the string such an inherited value turns into under
  \<open>+\<close> (the source text of a built-in function as Node prints it).
\<close>

type_synonym 'v jsobject = "(string \<times> 'v) list"

definition inheritedText :: "string \<Rightarrow> string option" where
  "inheritedText = map_of
     [(''constructor'', ''function Object() { [native code] }''),
      (''__defineGetter__'', ''function __defineGetter__() { [native code] }''),
      (''__defineSetter__'', ''function __defineSetter__() { [native code] }''),
      (''hasOwnProperty'', ''function hasOwnProperty() { [native code] }''),
      (''__lookupGetter__'', ''function __lookupGetter__() { [native code] }''),
      (''__lookupSetter__'', ''function __lookupSetter__() { [native code] }''),
      (''isPrototypeOf'', ''function isPrototypeOf() { [native code] }''),
      (''propertyIsEnumerable'', ''function propertyIsEnumerable() { [native code] }''),
      (''toString'', ''function toString() { [native code] }''),
      (''valueOf'', ''function valueOf() { [native code] }''),
      (''__proto__'', ''[object Object]''),
      (''toLocaleString'', ''function toLocaleString() { [native code] }'')]"

text \<open>
  \<open>obj[key] = v\<close> for a primitive \<open>v\<close>: the own property is overwritten in place or
  created last; the key \<open>__proto__\<close> reaches the inherited setter, which ignores a
  primitive.
\<close>

definition assign :: "'v jsobject \<Rightarrow> string \<Rightarrow> 'v \<Rightarrow> 'v jsobject" where
  "assign obj key v = (if key = ''__proto__'' then obj else AList.update key v obj)"

text \<open>
  \<open>Object.keys\<close> lists the own keys that are array indices (canonical decimal numerals
  up to \<open>2 ^ 32 - 2\<close>) in ascending numeric order first, then the other keys in the
  order of their creation.
\<close>

definition isDigit :: "char \<Rightarrow> bool" where
  "isDigit c = (c \<in> set ''0123456789'')"

definition indexValue :: "string \<Rightarrow> int" where
  "indexValue s = foldl (\<lambda>n c. 10 * n + (of_char c - 48)) 0 s"

definition isArrayIndex :: "string \<Rightarrow> bool" where
  "isArrayIndex s =
     (s \<noteq> [] \<and> list_all isDigit s \<and> (s = ''0'' \<or> hd s \<noteq> CHR ''0'') \<and> indexValue s \<le> 4294967294)"

definition ownEntries :: "'v jsobject \<Rightarrow> 'v jsobject" where
  "ownEntries obj =
     sort_key (\<lambda>p. indexValue (fst p)) (filter (\<lambda>p. isArrayIndex (fst p)) obj)
     @ filter (\<lambda>p. \<not> isArrayIndex (fst p)) obj"

definition Object_keys :: "'v jsobject \<Rightarrow> string list" where
  "Object_keys obj = map fst (ownEntries obj)"

text \<open>
  A cell of a counting object: a count, or the text that \<open>+ 1\<close> made of an inherited
  value.
\<close>

datatype cell = Count nat | Text string

text \<open>\<open>obj[key] = (obj[key] || 0) + 1\<close>\<close>

definition increment :: "cell jsobject \<Rightarrow> string \<Rightarrow> cell jsobject" where
  "increment obj key =
     assign obj key
       (case map_of obj key of
          Some (Count n) \<Rightarrow> Count ((if n = 0 then 0 else n) + 1)
        | Some (Text s) \<Rightarrow> (if s = [] then Count 1 else Text (s @ ''1''))
        | None \<Rightarrow> (case inheritedText key of None \<Rightarrow> Count 1 | Some t \<Rightarrow> Text (t @ ''1'')))"

text \<open>
  \<open>a > b\<close> on two cells: numbers compare as numbers, two strings by their code units,
  and a string beside a number is converted to a number first, which gives NaN for
  the text of a function.
\<close>

fun string_gt :: "string \<Rightarrow> string \<Rightarrow> bool" where
  "string_gt [] _ = False"
| "string_gt (x # xs) [] = True"
| "string_gt (x # xs) (y # ys) =
     ((of_char y :: nat) < of_char x \<or> (x = y \<and> string_gt xs ys))"

fun cell_gt :: "cell \<Rightarrow> cell \<Rightarrow> bool" where
  "cell_gt (Count m) (Count n) = (n < m)"
| "cell_gt (Text s) (Text t) = string_gt s t"
| "cell_gt _ _ = False"

section \<open>The handler of \<open>/api/analyze\<close>\<close>

datatype failure = EmptyDataset | TypeError

subsection \<open>1. Status breakdown\<close>

record status_counts =
  open' :: nat
  closed' :: nat
  pending :: nat
  hold :: nat
  solved :: nat
  new' :: nat

record status_breakdown = status_counts +
  openPercent :: jsnum
  closedPercent :: jsnum
  pendingPercent :: jsnum
  holdPercent :: jsnum
  solvedPercent :: jsnum
  newPercent :: jsnum

definition countStatus :: "host \<Rightarrow> status_counts \<Rightarrow> issue \<Rightarrow> status_counts" where
  "countStatus h c issue =
     (let st = toLowerCase h (status issue) in
      if st = ''open'' then c\<lparr>open' := open' c + 1\<rparr>
      else if st = ''closed'' then c\<lparr>closed' := closed' c + 1\<rparr>
      else if st = ''pending'' then c\<lparr>pending := pending c + 1\<rparr>
      else if st = ''hold'' then c\<lparr>hold := hold c + 1\<rparr>
      else if st = ''solved'' then c\<lparr>solved := solved c + 1\<rparr>
      else if st = ''new'' then c\<lparr>new' := new' c + 1\<rparr>
      else c)"

definition statusCounts :: "host \<Rightarrow> issue list \<Rightarrow> status_counts" where
  "statusCounts h issues =
     foldl (countStatus h)
       \<lparr>open' = 0, closed' = 0, pending = 0, hold = 0, solved = 0, new' = 0\<rparr> issues"

text \<open>\<open>(c / t) * 100\<close> for two counters\<close>

definition percent :: "nat \<Rightarrow> nat \<Rightarrow> jsnum" where
  "percent c t = js_mul (js_div (js_nat c) (js_nat t)) (Num 100)"

definition statusBreakdownOf :: "host \<Rightarrow> issue list \<Rightarrow> status_breakdown" where
  "statusBreakdownOf h issues =
     (let c = statusCounts h issues; totalIssues = length issues in
      \<lparr>open' = open' c, closed' = closed' c, pending = pending c,
       hold = hold c, solved = solved c, new' = new' c,
       openPercent = percent (open' c) totalIssues,
       closedPercent = percent (closed' c) totalIssues,
       pendingPercent = percent (pending c) totalIssues,
       holdPercent = percent (hold c) totalIssues,
       solvedPercent = percent (solved c) totalIssues,
       newPercent = percent (new' c) totalIssues\<rparr>)"

subsection \<open>2. Priority breakdown\<close>

record priority_counts =
  high :: nat
  normal :: nat
  low :: nat

record priority_breakdown = priority_counts +
  highPercent :: jsnum
  normalPercent :: jsnum
  lowPercent :: jsnum

definition countPriority :: "host \<Rightarrow> priority_counts \<Rightarrow> issue \<Rightarrow> priority_counts" where
  "countPriority h c issue =
     (let p = toLowerCase h (priority issue) in
      if p = ''high'' then c\<lparr>high := high c + 1\<rparr>
      else if p = ''normal'' then c\<lparr>normal := normal c + 1\<rparr>
      else if p = ''low'' then c\<lparr>low := low c + 1\<rparr>
      else c)"

definition priorityCounts :: "host \<Rightarrow> issue list \<Rightarrow> priority_counts" where
  "priorityCounts h issues = foldl (countPriority h) \<lparr>high = 0, normal = 0, low = 0\<rparr> issues"

definition priorityBreakdownOf :: "host \<Rightarrow> issue list \<Rightarrow> priority_breakdown" where
  "priorityBreakdownOf h issues =
     (let c = priorityCounts h issues; totalIssues = length issues in
      \<lparr>high = high c, normal = normal c, low = low c,
       highPercent = percent (high c) totalIssues,
       normalPercent = percent (normal c) totalIssues,
       lowPercent = percent (low c) totalIssues\<rparr>)"

subsection \<open>3. Resolution timeliness\<close>

record timeliness_counts =
  onTime :: nat
  overdue :: nat
  currentlyOverdue :: nat

record resolution_timeliness = timeliness_counts +
  onTimePercent :: jsnum
  overduePercent :: jsnum
  currentlyOverduePercent :: jsnum

definition countTimeliness :: "host \<Rightarrow> timeliness_counts \<Rightarrow> issue \<Rightarrow> timeliness_counts" where
  "countTimeliness h c issue =
     (let now = Some (clock h);
          st = toLowerCase h (status issue);
          dueDate = newDate h (due issue) in
      if st = ''closed'' \<or> st = ''solved'' then
        (let updatedDate = newDate h (updated issue) in
         if date_le updatedDate dueDate then c\<lparr>onTime := onTime c + 1\<rparr>
         else c\<lparr>overdue := overdue c + 1\<rparr>)
      else if st = ''open'' \<or> st = ''pending'' \<or> st = ''hold'' \<or> st = ''new'' then
        (if date_gt now dueDate then c\<lparr>currentlyOverdue := currentlyOverdue c + 1\<rparr> else c)
      else c)"

definition timelinessCounts :: "host \<Rightarrow> issue list \<Rightarrow> timeliness_counts" where
  "timelinessCounts h issues =
     foldl (countTimeliness h) \<lparr>onTime = 0, overdue = 0, currentlyOverdue = 0\<rparr> issues"

definition resolutionTimelinessOf :: "host \<Rightarrow> issue list \<Rightarrow> resolution_timeliness" where
  "resolutionTimelinessOf h issues =
     (let c = timelinessCounts h issues;
          totalIssues = length issues;
          totalResolved = onTime c + overdue c in
      \<lparr>onTime = onTime c, overdue = overdue c, currentlyOverdue = currentlyOverdue c,
       onTimePercent = (if 0 < totalResolved then percent (onTime c) totalResolved else Num 0),
       overduePercent = (if 0 < totalResolved then percent (overdue c) totalResolved else Num 0),
       currentlyOverduePercent =
         (if 0 < totalIssues then percent (currentlyOverdue c) totalIssues else Num 0)\<rparr>)"

subsection \<open>4. Average time to close high priority issues\<close>

record high_priority_analysis =
  averageTimeToCloseHours :: jsnum
  averageTimeToCloseDays :: jsnum
  totalClosedHighPriority :: nat

definition highPriorityClosed :: "host \<Rightarrow> issue list \<Rightarrow> issue list" where
  "highPriorityClosed h issues =
     filter (\<lambda>issue.
        let p = toLowerCase h (priority issue); st = toLowerCase h (status issue) in
        p = ''high'' \<and> (st = ''closed'' \<or> st = ''solved'')) issues"

definition timeDiffMs :: "host \<Rightarrow> issue \<Rightarrow> jsnum" where
  "timeDiffMs h issue =
     (let createdDate = newDate h (created issue); updatedDate = newDate h (updated issue) in
      js_sub (getTime updatedDate) (getTime createdDate))"

text \<open>
  The loop over \<open>highPriorityClosed\<close> updates \<open>totalTimeToClose\<close> and pushes onto
  \<open>timeToCloseArray\<close>; its state is the pair of the two.
\<close>

definition addTimeToClose ::
  "host \<Rightarrow> jsnum \<times> (issue \<times> jsnum) list \<Rightarrow> issue \<Rightarrow> jsnum \<times> (issue \<times> jsnum) list" where
  "addTimeToClose h acc issue =
     (js_add (fst acc) (timeDiffMs h issue), snd acc @ [(issue, timeDiffMs h issue)])"

definition totalTimeToClose :: "host \<Rightarrow> issue list \<Rightarrow> jsnum" where
  "totalTimeToClose h issues =
     fst (foldl (addTimeToClose h) (Num 0, []) (highPriorityClosed h issues))"

definition timeToCloseArray :: "host \<Rightarrow> issue list \<Rightarrow> (issue \<times> jsnum) list" where
  "timeToCloseArray h issues =
     snd (foldl (addTimeToClose h) (Num 0, []) (highPriorityClosed h issues))"

definition averageTimeToCloseMs :: "host \<Rightarrow> issue list \<Rightarrow> jsnum" where
  "averageTimeToCloseMs h issues =
     (if 0 < length (highPriorityClosed h issues)
      then js_div (totalTimeToClose h issues) (js_nat (length (highPriorityClosed h issues)))
      else Num 0)"

text \<open>\<open>Math.round(x * 100) / 100\<close>\<close>

definition round2 :: "jsnum \<Rightarrow> jsnum" where
  "round2 x = js_div (Math_round (js_mul x (Num 100))) (Num 100)"

definition highPriorityAnalysisOf :: "host \<Rightarrow> issue list \<Rightarrow> high_priority_analysis" where
  "highPriorityAnalysisOf h issues =
     (let hours = js_div (averageTimeToCloseMs h issues) (Num (1000 * 60 * 60));
          days = js_div hours (Num 24) in
      \<lparr>averageTimeToCloseHours = round2 hours,
       averageTimeToCloseDays = round2 days,
       totalClosedHighPriority = length (highPriorityClosed h issues)\<rparr>)"

subsection \<open>5. Longest to solve high priority issue\<close>

record longest_to_solve =
  issueId :: int
  timeToSolveHours :: jsnum
  timeToSolveDays :: jsnum
  satisfactionRatingScore :: string

text \<open>The reducer of \<open>longestEntry\<close>, started from \<open>null\<close>.\<close>

definition longer ::
  "(issue \<times> jsnum) option \<Rightarrow> issue \<times> jsnum \<Rightarrow> (issue \<times> jsnum) option" where
  "longer longest current =
     (case longest of
        None \<Rightarrow> Some current
      | Some l \<Rightarrow> if js_gt (snd current) (snd l) then Some current else Some l)"

definition longestEntry :: "host \<Rightarrow> issue list \<Rightarrow> (issue \<times> jsnum) option" where
  "longestEntry h issues = foldl longer None (timeToCloseArray h issues)"

definition longestToSolveHighPriorityOf :: "host \<Rightarrow> issue list \<Rightarrow> longest_to_solve" where
  "longestToSolveHighPriorityOf h issues =
     (case longestEntry h issues of
        Some (issue, timeMs) \<Rightarrow>
          \<lparr>issueId = id' issue,
           timeToSolveHours = round2 (js_div timeMs (Num (1000 * 60 * 60))),
           timeToSolveDays = round2 (js_div timeMs (Num (1000 * 60 * 60 * 24))),
           satisfactionRatingScore = (case ratingScore issue of Some s \<Rightarrow> s | None \<Rightarrow> ''N/A'')\<rparr>
      | None \<Rightarrow>
          \<lparr>issueId = 0, timeToSolveHours = Num 0, timeToSolveDays = Num 0,
           satisfactionRatingScore = ''N/A''\<rparr>)"

subsection \<open>6. Additional insights\<close>

record additional_insights =
  totalIssues :: nat
  issuesByType :: "cell jsobject"
  averageSatisfactionByPriority :: "string jsobject"
  issuesClosedCount :: nat
  issuesOpenCount :: nat

definition issuesByTypeOf :: "host \<Rightarrow> issue list \<Rightarrow> cell jsobject" where
  "issuesByTypeOf h issues = foldl (\<lambda>obj issue. increment obj (toLowerCase h (type issue))) [] issues"

text \<open>
  One round of the loop that fills \<open>satisfactionByPriority\<close>. The test
  \<open>!satisfactionByPriority[priority]\<close> is true only when the key is neither an own
  nor an inherited property; \<open>satisfactionByPriority[priority].scores.push(...)\<close> on an
  inherited value, which has no \<open>scores\<close>, throws a TypeError.
\<close>

definition collectScore ::
  "host \<Rightarrow> string list jsobject \<Rightarrow> issue \<Rightarrow> failure + string list jsobject" where
  "collectScore h obj issue =
     (let p = toLowerCase h (priority issue);
          obj1 = (if map_of obj p = None \<and> inheritedText p = None
                  then AList.update p [] obj else obj) in
      case ratingScore issue of
        None \<Rightarrow> Inr obj1
      | Some s \<Rightarrow>
          (case map_of obj1 p of
             None \<Rightarrow> Inl TypeError
           | Some scores \<Rightarrow> Inr (AList.update p (scores @ [s]) obj1)))"

fun collectScores ::
  "host \<Rightarrow> string list jsobject \<Rightarrow> issue list \<Rightarrow> failure + string list jsobject" where
  "collectScores h obj [] = Inr obj"
| "collectScores h obj (issue # issues) =
     (case collectScore h obj issue of
        Inl e \<Rightarrow> Inl e
      | Inr obj1 \<Rightarrow> collectScores h obj1 issues)"

definition satisfactionByPriority :: "host \<Rightarrow> issue list \<Rightarrow> failure + string list jsobject" where
  "satisfactionByPriority h issues = collectScores h [] issues"

definition scoreCounts :: "string list \<Rightarrow> cell jsobject" where
  "scoreCounts scores = foldl increment [] scores"

text \<open>
  \<open>Object.keys(scoreCounts).reduce((a, b) => scoreCounts[a] > scoreCounts[b] ? a : b)\<close>:
  with no initial value the first key starts the reduction, and an empty array of keys
  throws a TypeError. Each key travels with the own value that \<open>scoreCounts[key]\<close>
  reads.
\<close>

definition mostCommon :: "cell jsobject \<Rightarrow> failure + string" where
  "mostCommon counts =
     (case ownEntries counts of
        [] \<Rightarrow> Inl TypeError
      | first # others \<Rightarrow>
          Inr (fst (foldl (\<lambda>a b. if cell_gt (snd a) (snd b) then a else b) first others)))"

fun modes :: "string list jsobject \<Rightarrow> string jsobject \<Rightarrow> failure + string jsobject" where
  "modes [] result = Inr result"
| "modes ((p, scores) # entries) result =
     (if 0 < length scores then
        (case mostCommon (scoreCounts scores) of
           Inl e \<Rightarrow> Inl e
         | Inr m \<Rightarrow> modes entries (assign result p m))
      else modes entries result)"

definition averageSatisfactionByPriorityOf :: "host \<Rightarrow> issue list \<Rightarrow> failure + string jsobject" where
  "averageSatisfactionByPriorityOf h issues =
     (case satisfactionByPriority h issues of
        Inl e \<Rightarrow> Inl e
      | Inr obj \<Rightarrow> modes (ownEntries obj) [])"

subsection \<open>The report and the responses\<close>

record analysis_result =
  statusBreakdown :: status_breakdown
  priorityBreakdown :: priority_breakdown
  resolutionTimeliness :: resolution_timeliness
  highPriorityAnalysis :: high_priority_analysis
  longestToSolveHighPriority :: longest_to_solve
  additionalInsights :: additional_insights

text \<open>
  The body of the handler from the fetched \<open>data.results\<close> on (\<open>None\<close> when the field
  is missing): the report, or the failure that ends the request. The sections before
  the insights cannot throw, so the order of evaluation does not show.
\<close>

definition analyze :: "host \<Rightarrow> issue list option \<Rightarrow> failure + analysis_result" where
  "analyze h results =
     (case results of
        None \<Rightarrow> Inl EmptyDataset
      | Some issues \<Rightarrow>
          if length issues = 0 then Inl EmptyDataset
          else
            (case averageSatisfactionByPriorityOf h issues of
               Inl e \<Rightarrow> Inl e
             | Inr modeByPriority \<Rightarrow>
                 Inr \<lparr>statusBreakdown = statusBreakdownOf h issues,
                      priorityBreakdown = priorityBreakdownOf h issues,
                      resolutionTimeliness = resolutionTimelinessOf h issues,
                      highPriorityAnalysis = highPriorityAnalysisOf h issues,
                      longestToSolveHighPriority = longestToSolveHighPriorityOf h issues,
                      additionalInsights =
                        \<lparr>totalIssues = length issues,
                         issuesByType = issuesByTypeOf h issues,
                         averageSatisfactionByPriority = modeByPriority,
                         issuesClosedCount = closed' (statusCounts h issues),
                         issuesOpenCount = open' (statusCounts h issues)\<rparr>\<rparr>))"

text \<open>
  \<open>GET\<close>: the request to the data source either fails (the \<open>catch\<close> answers 500) or
  gives \<open>data.results\<close>. The JSON bodies are the error text of an error response
  (the \<open>message\<close> field of the 500 body is left out) or the report.
\<close>

datatype fetched = Rejected | Resolved "issue list option"

datatype json = ErrorJson string | ReportJson analysis_result

record response =
  statusCode :: nat
  body :: json

definition GET :: "host \<Rightarrow> fetched \<Rightarrow> response" where
  "GET h f =
     (case f of
        Rejected \<Rightarrow> \<lparr>statusCode = 500, body = ErrorJson ''Failed to analyze data''\<rparr>
      | Resolved results \<Rightarrow>
          (case analyze h results of
             Inl EmptyDataset \<Rightarrow> \<lparr>statusCode = 404, body = ErrorJson ''No data found''\<rparr>
           | Inl TypeError \<Rightarrow> \<lparr>statusCode = 500, body = ErrorJson ''Failed to analyze data''\<rparr>
           | Inr result \<Rightarrow> \<lparr>statusCode = 200, body = ReportJson result\<rparr>))"

section \<open>Notions of the specification\<close>

text \<open>The six recognized statuses, and the two classes of them.\<close>

definition recognizedStatus :: "host \<Rightarrow> issue \<Rightarrow> bool" where
  "recognizedStatus h issue =
     (toLowerCase h (status issue) \<in> set [''open'', ''closed'', ''pending'', ''hold'', ''solved'', ''new''])"

definition resolved :: "host \<Rightarrow> issue \<Rightarrow> bool" where
  "resolved h issue = (toLowerCase h (status issue) \<in> set [''closed'', ''solved''])"

definition unresolved :: "host \<Rightarrow> issue \<Rightarrow> bool" where
  "unresolved h issue = (toLowerCase h (status issue) \<in> set [''open'', ''pending'', ''hold'', ''new''])"

text \<open>The sum of the six status counters.\<close>

definition counted :: "'a status_counts_scheme \<Rightarrow> nat" where
  "counted c = open' c + closed' c + pending c + hold c + solved c + new' c"

text \<open>The three timeliness classes of a record.\<close>

definition resolvedOnTime :: "host \<Rightarrow> issue \<Rightarrow> bool" where
  "resolvedOnTime h issue =
     (resolved h issue \<and> date_le (newDate h (updated issue)) (newDate h (due issue)))"

definition resolvedOverdue :: "host \<Rightarrow> issue \<Rightarrow> bool" where
  "resolvedOverdue h issue =
     (resolved h issue \<and> \<not> date_le (newDate h (updated issue)) (newDate h (due issue)))"

definition nowOverdue :: "host \<Rightarrow> issue \<Rightarrow> bool" where
  "nowOverdue h issue =
     (unresolved h issue \<and> date_gt (Some (clock h)) (newDate h (due issue)))"


text \<open>A report with the two fields blanked that depend on the instant of the call.\<close>

definition withoutCurrentlyOverdue :: "analysis_result \<Rightarrow> analysis_result" where
  "withoutCurrentlyOverdue r =
     r\<lparr>resolutionTimeliness :=
         (resolutionTimeliness r)\<lparr>currentlyOverdue := 0, currentlyOverduePercent := Num 0\<rparr>\<rparr>"

text \<open>
  The duration of a record in milliseconds, \<open>updated - created\<close>, when both
  timestamps parse; and the mean of a list of durations in hours.
\<close>

definition duration :: "host \<Rightarrow> issue \<Rightarrow> int option" where
  "duration h issue =
     (case (newDate h (updated issue), newDate h (created issue)) of
        (Some u, Some c) \<Rightarrow> Some (u - c)
      | _ \<Rightarrow> None)"

definition meanHours :: "int list \<Rightarrow> real" where
  "meanHours ds = real_of_int (sum_list ds) / (real (length ds) * 3600000)"

text \<open>A finite number: neither \<open>NaN\<close> nor an infinity.\<close>

definition isFinite :: "jsnum \<Rightarrow> bool" where
  "isFinite x = (case x of Num r \<Rightarrow> True | _ \<Rightarrow> False)"

text \<open>Notions for the dictionaries: the order of first occurrence, keys that name no
  inherited property, cells that are counts, and the scores of a priority.\<close>

definition firstSeen :: "'a list \<Rightarrow> 'a list" where
  "firstSeen xs = rev (remdups (rev xs))"

definition plainKey :: "string \<Rightarrow> bool" where
  "plainKey k = (inheritedText k = None)"

definition countCells :: "cell jsobject \<Rightarrow> bool" where
  "countCells obj = (\<forall>c \<in> snd ` set obj. \<exists>n. c = Count n \<and> 0 < n)"

definition tally :: "cell \<Rightarrow> nat" where
  "tally c = (case c of Count n \<Rightarrow> n | Text s \<Rightarrow> 0)"

definition plainScores :: "string list \<Rightarrow> bool" where
  "plainScores scores = (\<forall>s \<in> set scores. plainKey s)"

definition enumerationOrder :: "string list \<Rightarrow> string list" where
  "enumerationOrder ks =
     sort_key indexValue (filter isArrayIndex ks) @ filter (\<lambda>k. \<not> isArrayIndex k) ks"

definition lastMostFrequent :: "string list \<Rightarrow> string list \<Rightarrow> string" where
  "lastMostFrequent ks scores =
     last (filter (\<lambda>s. \<forall>t \<in> set ks. count_list scores t \<le> count_list scores s) ks)"

definition priorityKey :: "host \<Rightarrow> issue \<Rightarrow> string" where
  "priorityKey h issue = toLowerCase h (priority issue)"

definition priorityScores :: "host \<Rightarrow> string \<Rightarrow> issue list \<Rightarrow> string list" where
  "priorityScores h p issues =
     List.map_filter ratingScore (filter (\<lambda>issue. priorityKey h issue = p) issues)"

section \<open>Sample data\<close>

text \<open>
  A host for the examples: lower case for the letters A to Z, the time values of the
  date strings the examples use (any other string of the examples is not a date), and
  a call at 2024-12-05T18:00:00.000Z.
\<close>

definition lowerChar :: "char \<Rightarrow> char" where
  "lowerChar c =
     (case map_of (zip ''ABCDEFGHIJKLMNOPQRSTUVWXYZ'' ''abcdefghijklmnopqrstuvwxyz'') c of
        None \<Rightarrow> c
      | Some l \<Rightarrow> l)"

definition sampleHost :: host where
  "sampleHost =
     \<lparr>toLowerCase = map lowerChar,
      newDate = map_of
        [(''2024-12-05T08:00:00.000Z'', 1733385600000),
         (''2024-12-05T09:00:00.000Z'', 1733389200000),
         (''2024-12-05T09:00:18.000Z'', 1733389218000),
         (''2024-12-05T10:00:00.000Z'', 1733392800000),
         (''2024-12-05T11:00:00.000Z'', 1733396400000),
         (''2024-12-05T12:00:00.000Z'', 1733400000000),
         (''2024-12-05T18:00:00.000Z'', 1733421600000),
         (''2024-12-06T08:00:00.000Z'', 1733472000000)],
      clock = 1733421600000\<rparr>"

text \<open>A ticket as the data source sends it: id, created, updated, due, status, type,
  priority and, when rated, the score.\<close>

definition ticket ::
  "int \<Rightarrow> string \<Rightarrow> string \<Rightarrow> string \<Rightarrow> string \<Rightarrow> string \<Rightarrow> string \<Rightarrow> string option \<Rightarrow> issue" where
  "ticket i c u d st ty p sc =
     \<lparr>id' = i, created = c, updated = u, due = d, status = st, type = ty, priority = p,
      satisfaction_rating = map_option (\<lambda>s. \<lparr>score = Some s\<rparr>) sc\<rparr>"

text \<open>Four tickets in the manner of the test fixture.\<close>

definition sampleIssues :: "issue list" where
  "sampleIssues =
     [ticket 1 ''2024-12-05T10:00:00.000Z'' ''2024-12-05T11:00:00.000Z'' ''2024-12-05T12:00:00.000Z''
        ''open'' ''problem'' ''high'' (Some ''good''),
      ticket 2 ''2024-12-05T09:00:00.000Z'' ''2024-12-05T10:00:00.000Z'' ''2024-12-05T11:00:00.000Z''
        ''closed'' ''question'' ''normal'' (Some ''excellent''),
      ticket 3 ''2024-12-05T08:00:00.000Z'' ''2024-12-05T12:00:00.000Z'' ''2024-12-05T09:00:00.000Z''
        ''Closed'' ''problem'' ''High'' (Some ''bad''),
      ticket 4 ''2024-12-05T08:00:00.000Z'' ''2024-12-05T09:00:00.000Z'' ''2024-12-06T08:00:00.000Z''
        ''escalated'' ''task'' ''low'' None]"


text \<open>Three rated high-priority tickets, the third with a score that names a property
  every object inherits.\<close>

definition inheritedNameScores :: "issue list" where
  "inheritedNameScores =
     [ticket 1 ''2024-12-05T08:00:00.000Z'' ''2024-12-05T09:00:00.000Z'' ''2024-12-05T10:00:00.000Z''
        ''closed'' ''problem'' ''high'' (Some ''good''),
      ticket 2 ''2024-12-05T08:00:00.000Z'' ''2024-12-05T09:00:00.000Z'' ''2024-12-05T10:00:00.000Z''
        ''closed'' ''problem'' ''high'' (Some ''good''),
      ticket 3 ''2024-12-05T08:00:00.000Z'' ''2024-12-05T09:00:00.000Z'' ''2024-12-05T10:00:00.000Z''
        ''closed'' ''problem'' ''high'' (Some ''toString'')]"

text \<open>Two rated high-priority tickets whose scores are numerals.\<close>

definition indexScores :: "issue list" where
  "indexScores =
     [ticket 1 ''2024-12-05T08:00:00.000Z'' ''2024-12-05T09:00:00.000Z'' ''2024-12-05T10:00:00.000Z''
        ''closed'' ''problem'' ''high'' (Some ''2''),
      ticket 2 ''2024-12-05T08:00:00.000Z'' ''2024-12-05T09:00:00.000Z'' ''2024-12-05T10:00:00.000Z''
        ''closed'' ''problem'' ''high'' (Some ''1'')]"

text \<open>One open ticket due at noon of the sample day.\<close>

definition dueAtNoon :: "issue list" where
  "dueAtNoon =
     [ticket 1 ''2024-12-05T08:00:00.000Z'' ''2024-12-05T09:00:00.000Z'' ''2024-12-05T12:00:00.000Z''
        ''open'' ''problem'' ''high'' None]"

text \<open>Three resolved tickets: one on time, two overdue.\<close>

definition oneOfThreeOnTime :: "issue list" where
  "oneOfThreeOnTime =
     [ticket 1 ''2024-12-05T08:00:00.000Z'' ''2024-12-05T09:00:00.000Z'' ''2024-12-05T10:00:00.000Z''
        ''closed'' ''problem'' ''normal'' None,
      ticket 2 ''2024-12-05T08:00:00.000Z'' ''2024-12-05T12:00:00.000Z'' ''2024-12-05T10:00:00.000Z''
        ''closed'' ''problem'' ''normal'' None,
      ticket 3 ''2024-12-05T08:00:00.000Z'' ''2024-12-05T12:00:00.000Z'' ''2024-12-05T11:00:00.000Z''
        ''solved'' ''problem'' ''normal'' None]"

text \<open>Two resolved high-priority tickets that took two and ten hours, and a third
  ticket of low priority.\<close>

definition twoAndTenHours :: "issue list" where
  "twoAndTenHours =
     [ticket 1 ''2024-12-05T08:00:00.000Z'' ''2024-12-05T10:00:00.000Z'' ''2024-12-05T12:00:00.000Z''
        ''closed'' ''problem'' ''high'' (Some ''good''),
      ticket 2 ''2024-12-05T08:00:00.000Z'' ''2024-12-05T18:00:00.000Z'' ''2024-12-05T12:00:00.000Z''
        ''solved'' ''task'' ''HIGH'' None,
      ticket 3 ''2024-12-05T08:00:00.000Z'' ''2024-12-06T08:00:00.000Z'' ''2024-12-05T12:00:00.000Z''
        ''closed'' ''task'' ''low'' None]"

text \<open>One closed high-priority ticket whose \<open>created\<close> is not a date.\<close>

definition unparsedCreated :: "issue list" where
  "unparsedCreated =
     [ticket 1 ''not a date'' ''2024-12-05T10:00:00.000Z'' ''2024-12-05T12:00:00.000Z''
        ''closed'' ''problem'' ''high'' (Some ''good'')]"

text \<open>Two resolved high-priority tickets, the first with a \<open>created\<close> that is not a
  date, the second solved after ten hours.\<close>

definition unparsedFirst :: "issue list" where
  "unparsedFirst =
     [ticket 1 ''not a date'' ''2024-12-05T10:00:00.000Z'' ''2024-12-05T12:00:00.000Z''
        ''closed'' ''problem'' ''high'' (Some ''good''),
      ticket 2 ''2024-12-05T08:00:00.000Z'' ''2024-12-05T18:00:00.000Z'' ''2024-12-05T12:00:00.000Z''
        ''solved'' ''task'' ''high'' (Some ''bad'')]"

text \<open>Three resolved high-priority tickets that took two, ten and ten hours.\<close>

definition tiedDurations :: "issue list" where
  "tiedDurations =
     [ticket 1 ''2024-12-05T08:00:00.000Z'' ''2024-12-05T10:00:00.000Z'' ''2024-12-05T12:00:00.000Z''
        ''closed'' ''problem'' ''high'' (Some ''good''),
      ticket 2 ''2024-12-05T08:00:00.000Z'' ''2024-12-05T18:00:00.000Z'' ''2024-12-05T12:00:00.000Z''
        ''solved'' ''task'' ''HIGH'' (Some ''bad''),
      ticket 3 ''2024-12-05T08:00:00.000Z'' ''2024-12-05T18:00:00.000Z'' ''2024-12-05T12:00:00.000Z''
        ''closed'' ''task'' ''high'' None]"

text \<open>Three resolved high-priority tickets, the second with an \<open>updated\<close> that is
  not a date; the first took two hours and the third ten.\<close>

definition unparsedSecond :: "issue list" where
  "unparsedSecond =
     [ticket 1 ''2024-12-05T08:00:00.000Z'' ''2024-12-05T10:00:00.000Z'' ''2024-12-05T12:00:00.000Z''
        ''closed'' ''problem'' ''high'' (Some ''good''),
      ticket 2 ''2024-12-05T08:00:00.000Z'' ''not a date'' ''2024-12-05T12:00:00.000Z''
        ''closed'' ''problem'' ''high'' (Some ''bad''),
      ticket 3 ''2024-12-05T08:00:00.000Z'' ''2024-12-05T18:00:00.000Z'' ''2024-12-05T12:00:00.000Z''
        ''solved'' ''task'' ''high'' (Some ''excellent'')]"

section \<open>Rounding to binary64\<close>

lemma rne_error: "\<bar>of_int (rne y) - y\<bar> \<le> 1 / 2"
proof -
  have "of_int \<lfloor>y\<rfloor> \<le> y" "y < of_int \<lfloor>y\<rfloor> + 1"
    by linarith+
  then show ?thesis
    by (auto simp: rne_def Let_def)
qed

lemma rne_of_int [simp]: "rne (of_int k) = k"
  by (simp add: rne_def)

lemma powi2_Suc: "(2::real) powi (d + 1) = 2 * 2 powi d"
  by (simp add: power_int_add)

lemma expo_up:
  "1 \<le> x \<Longrightarrow> 2 powi (expo n x e - e) \<le> x \<and> e \<le> expo n x e \<and>
     (x < 2 powi (expo n x e - e + 1) \<or> expo n x e = e + int n)"
proof (induction n arbitrary: x e)
  case 0
  then show ?case by simp
next
  case (Suc n)
  show ?case
  proof (cases "2 \<le> x")
    case True
    then have h: "1 \<le> x / 2" by simp
    define e' where "e' = expo n (x / 2) (e + 1)"
    define d where "d = e' - (e + 1)"
    have IH: "2 powi d \<le> x / 2" "e + 1 \<le> e'" "x / 2 < 2 powi (d + 1) \<or> e' = e + 1 + int n"
      using Suc.IH[OF h, of "e + 1"] unfolding e'_def d_def by blast+
    have eq: "expo (Suc n) x e = e'"
      using True by (simp add: e'_def)
    have d: "e' - e = d + 1" "e' - e + 1 = d + 1 + 1"
      by (simp_all add: d_def)
    have "2 powi (d + 1) \<le> x"
      using IH(1) unfolding powi2_Suc by simp
    moreover have "x < 2 powi (d + 1 + 1) \<or> e' = e + int (Suc n)"
      using IH(3) unfolding powi2_Suc[of "d + 1"] by auto
    ultimately show ?thesis
      unfolding eq d using IH(2) by simp
  next
    case False
    then show ?thesis
      using Suc.prems by simp
  qed
qed

lemma expo_down:
  "0 < x \<Longrightarrow> x < 2 \<Longrightarrow> x < 2 powi (expo n x e - e + 1) \<and> expo n x e \<le> e \<and>
     (2 powi (expo n x e - e) \<le> x \<or> expo n x e = e - int n)"
proof (induction n arbitrary: x e)
  case 0
  then show ?case by simp
next
  case (Suc n)
  show ?case
  proof (cases "x < 1")
    case True
    then have h: "0 < 2 * x" "2 * x < 2" using Suc.prems by simp_all
    define e' where "e' = expo n (2 * x) (e - 1)"
    define d where "d = e' - e"
    have IH: "2 * x < 2 powi (d + 1 + 1)" "e' \<le> e - 1" "2 powi (d + 1) \<le> 2 * x \<or> e' = e - 1 - int n"
      using Suc.IH[OF h, of "e - 1"] unfolding e'_def d_def
      by (simp_all add: algebra_simps)
    have eq: "expo (Suc n) x e = e'"
      using True by (simp add: e'_def)
    have "x < 2 powi (d + 1)"
      using IH(1) unfolding powi2_Suc[of "d + 1"] by simp
    moreover have "2 powi d \<le> x \<or> e' = e - int (Suc n)"
      using IH(3) unfolding powi2_Suc by auto
    ultimately show ?thesis
      unfolding eq using IH(2) by (simp add: d_def)
  next
    case False
    then show ?thesis
      using Suc.prems by simp
  qed
qed

text \<open>The exponent that \<open>fl\<close> uses, for a positive magnitude.\<close>

lemma expo_1100:
  assumes "0 < a"
  shows "a < 2 powi 1100 \<longrightarrow> a < 2 powi (expo 1100 a 0 + 1)"
    and "- 1022 < expo 1100 a 0 \<longrightarrow> 2 powi (expo 1100 a 0) \<le> a"
proof -
  show "a < 2 powi 1100 \<longrightarrow> a < 2 powi (expo 1100 a 0 + 1)"
  proof (cases "1 \<le> a")
    case True
    from expo_up[OF True, of 1100 0] show ?thesis
      by auto
  next
    case False
    with assms have "a < 2" by simp
    from expo_down[OF assms this, of 1100 0] show ?thesis
      by simp
  qed
  show "- 1022 < expo 1100 a 0 \<longrightarrow> 2 powi (expo 1100 a 0) \<le> a"
  proof (cases "1 \<le> a")
    case True
    from expo_up[OF True, of 1100 0] show ?thesis
      by simp
  next
    case False
    with assms have "a < 2" by simp
    from expo_down[OF assms this, of 1100 0] show ?thesis
      by auto
  qed
qed

lemma fl_error:
  assumes "\<bar>x\<bar> \<le> 2 powi 1023"
  shows "\<exists>r. fl x = Num r \<and> \<bar>r - x\<bar> \<le> 2 powi (- 53) * \<bar>x\<bar> + 2 powi (- 1075)"
proof (cases "x = 0")
  case True
  then show ?thesis by (simp add: fl_def)
next
  case False
  define a where "a = \<bar>x\<bar>"
  define e0 where "e0 = expo 1100 a 0"
  define e where "e = max e0 (- 1022)"
  define q :: real where "q = 2 powi (e - 52)"
  define r where "r = of_int (rne (x / q)) * q"
  have a: "0 < a" "a \<le> 2 powi 1023"
    using False assms by (simp_all add: a_def)
  have q: "0 < q"
    by (simp add: q_def)
  have "\<bar>r - x\<bar> = \<bar>of_int (rne (x / q)) - x / q\<bar> * q"
  proof -
    have "r - x = (of_int (rne (x / q)) - x / q) * q"
      using q by (simp add: r_def field_simps)
    then show ?thesis
      using q by (simp add: abs_mult)
  qed
  also have "\<dots> \<le> 1 / 2 * q"
    using rne_error[of "x / q"] q by (intro mult_right_mono) simp_all
  also have "1 / 2 * q = 2 powi (e - 53)"
  proof -
    have "(2::real) powi (e - 52) = 2 powi (e - 53 + 1)" by simp
    then show ?thesis
      unfolding q_def powi2_Suc by simp
  qed
  finally have err: "\<bar>r - x\<bar> \<le> 2 powi (e - 53)" .
  have half: "2 powi (e - 53) \<le> 2 powi (- 53) * a + 2 powi (- 1075)"
  proof (cases "- 1022 < e0")
    case True
    then have "2 powi e0 \<le> a"
      using expo_1100(2)[OF a(1)] by (simp add: e0_def)
    moreover have "e = e0"
      using True by (simp add: e_def)
    moreover have "(2::real) powi (e0 - 53) = 2 powi (- 53) * 2 powi e0"
      by (simp add: power_int_diff power_int_minus field_simps)
    ultimately have "2 powi (e - 53) \<le> 2 powi (- 53) * a"
      by simp
    moreover have "(0::real) \<le> 2 powi (- 1075)"
      by simp
    ultimately show ?thesis
      by linarith
  next
    case False
    then have "e = - 1022"
      by (simp add: e_def)
    then have "(2::real) powi (e - 53) = 2 powi (- 1075)"
      by simp
    moreover have "0 \<le> 2 powi (- 53) * a"
      using a(1) by simp
    ultimately show ?thesis
      by linarith
  qed
  have bound: "\<bar>r - x\<bar> \<le> 2 powi (- 53) * a + 2 powi (- 1075)"
    using err half by linarith
  have "\<bar>r\<bar> \<le> a + \<bar>r - x\<bar>"
    unfolding a_def by linarith
  also have "\<dots> \<le> a + (2 powi (- 53) * a + 2 powi (- 1075))"
    using bound by simp
  also have "\<dots> \<le> 2 powi 1023 + (2 powi (- 53) * 2 powi 1023 + 2 powi (- 1075))"
    using a(2) by (intro add_mono mult_left_mono) simp_all
  also have "\<dots> < 2 powi 1024"
    by (simp add: power_int_minus field_simps)
  finally have "\<not> 2 powi 1024 \<le> \<bar>r\<bar>"
    by simp
  then have "fl x = Num r"
    using False unfolding fl_def Let_def a_def[symmetric] e0_def[symmetric] e_def[symmetric]
      q_def[symmetric] r_def[symmetric] by simp
  then show ?thesis
    using bound unfolding a_def by blast
qed

lemma fl_exact_int:
  assumes "\<bar>k\<bar> \<le> 2 ^ 53"
  shows "fl (of_int k) = Num (of_int k)"
proof (cases "k = 0")
  case True
  then show ?thesis by (simp add: fl_def)
next
  case False
  define x :: real where "x = of_int k"
  define a where "a = \<bar>x\<bar>"
  define e0 where "e0 = expo 1100 a 0"
  define e where "e = max e0 (- 1022)"
  define q :: real where "q = 2 powi (e - 52)"
  define r where "r = of_int (rne (x / q)) * q"
  have x0: "x \<noteq> 0"
    using False by (simp add: x_def)
  have a: "1 \<le> a" "a \<le> 2 ^ 53"
  proof -
    have "1 \<le> \<bar>k\<bar>" using False by simp
    then show "1 \<le> a"
      unfolding a_def x_def by (metis of_int_1_le_iff of_int_abs)
    have "of_int \<bar>k\<bar> \<le> (of_int (2 ^ 53) :: real)"
      using assms by (intro of_int_le_iff[THEN iffD2])
    then show "a \<le> 2 ^ 53"
      unfolding a_def x_def by simp
  qed
  have e0: "2 powi e0 \<le> a" "0 \<le> e0"
    using expo_up[OF a(1), of 1100 0] by (simp_all add: e0_def)
  have e53: "e0 \<le> 53"
  proof (rule ccontr)
    assume "\<not> e0 \<le> 53"
    then have "54 \<le> e0" by simp
    then have "(2::real) powi 54 \<le> 2 powi e0"
      by (intro power_int_increasing) simp_all
    then show False
      using e0(1) a(2) by simp
  qed
  have e: "e = e0"
    using e0(2) by (simp add: e_def)
  have q0: "0 < q"
    by (simp add: q_def)
  have "\<exists>m::int. x / q = of_int m"
  proof (cases "e0 \<le> 52")
    case True
    then have "1 / q = 2 ^ nat (52 - e0)"
      unfolding q_def e
      by (metis diff_ge_0_iff_ge minus_diff_eq power_int_minus_divide power_int_nonneg_exp)
    then have "x / q = x * 2 ^ nat (52 - e0)"
      by (metis divide_inverse inverse_eq_divide)
    then have "x / q = of_int (k * 2 ^ nat (52 - e0))"
      unfolding x_def by simp
    then show ?thesis by blast
  next
    case False
    then have e0eq: "e0 = 53"
      using e53 by simp
    then have "a = 2 ^ 53"
      using e0(1) a(2) by simp
    then have "\<bar>k\<bar> = 2 ^ 53"
      unfolding a_def x_def by (metis of_int_abs of_int_eq_numeral_power_cancel_iff)
    then have "k = 2 ^ 53 \<or> k = - (2 ^ 53)"
      by linarith
    then have "even k"
      by auto
    then have "k = 2 * (k div 2)"
      by simp
    moreover have "q = 2"
      unfolding q_def e e0eq by simp
    ultimately have "x / q = of_int (k div 2)"
      unfolding x_def by (metis nonzero_mult_div_cancel_left of_int_mult of_int_numeral zero_neq_numeral)
    then show ?thesis by blast
  qed
  then obtain m :: int where m: "x / q = of_int m" by blast
  have r: "r = x"
    unfolding r_def m rne_of_int using m q0 by (simp add: field_simps)
  have "\<bar>x\<bar> \<le> 2 ^ 53"
    using a(2) by (simp add: a_def)
  then have "\<not> 2 powi 1024 \<le> \<bar>r\<bar>"
    unfolding r by simp
  then have "fl x = Num r"
    using x0 unfolding fl_def Let_def a_def[symmetric] e0_def[symmetric] e_def[symmetric]
      q_def[symmetric] r_def[symmetric] by simp
  then show ?thesis
    unfolding r x_def .
qed

lemma ulp_values:
  "(2::real) powi (- 53) = 1 / 9007199254740992"
  "(2::real) powi (- 50) = 1 / 1125899906842624"
  "(0::real) < 2 powi (- 1075)"
  "(2::real) powi (- 1075) \<le> 2 powi (- 53) / 1000000"
proof -
  show "(2::real) powi (- 53) = 1 / 9007199254740992"
    and "(2::real) powi (- 50) = 1 / 1125899906842624"
    by (simp_all add: power_int_minus_divide)
  show "(0::real) < 2 powi (- 1075)"
    by simp
  have "(2::real) powi (- 1075) \<le> 2 powi (- 73)"
    by (intro power_int_increasing) simp_all
  also have "(2::real) powi (- 73) = 2 powi (- 53) / 2 ^ 20"
    by (simp add: power_int_minus_divide)
  also have "\<dots> \<le> 2 powi (- 53) / 1000000"
    by (intro divide_left_mono) simp_all
  finally show "(2::real) powi (- 1075) \<le> 2 powi (- 53) / 1000000" .
qed

text \<open>The rounding error of one operation, for operands of moderate size.\<close>

lemma fl_error_small:
  assumes "\<bar>x\<bar> \<le> b" "b \<le> 2 ^ 1000"
  shows "\<exists>r. fl x = Num r \<and> \<bar>r - x\<bar> \<le> 2 powi (- 53) * b + 2 powi (- 1075)"
proof -
  have "(2::real) ^ 1000 \<le> 2 powi 1023"
    by simp
  then have "\<bar>x\<bar> \<le> 2 powi 1023"
    using assms by linarith
  from fl_error[OF this] obtain r where r: "fl x = Num r"
    "\<bar>r - x\<bar> \<le> 2 powi (- 53) * \<bar>x\<bar> + 2 powi (- 1075)" by blast
  have "2 powi (- 53) * \<bar>x\<bar> \<le> 2 powi (- 53) * b"
    using assms(1) by (intro mult_left_mono) simp_all
  then show ?thesis
    using r by (intro exI[of _ r]) linarith
qed

lemma percent_bound:
  assumes "c \<le> t" "0 < t"
  shows "\<exists>p. percent c t = Num p \<and> \<bar>p - 100 * (real c / real t)\<bar> \<le> 202 * 2 powi (- 53)"
proof -
  define u :: real where "u = 2 powi (- 53)"
  define \<tau> :: real where "\<tau> = 2 powi (- 1075)"
  have u: "0 < u" "u \<le> 1 / 1000" "0 < \<tau>" "\<tau> \<le> u / 1000000"
    using ulp_values by (simp_all add: u_def \<tau>_def)
  define x where "x = real c / real t"
  have x: "0 \<le> x" "x \<le> 1"
    using assms by (simp_all add: x_def)
  obtain f where f: "fl x = Num f" "\<bar>f - x\<bar> \<le> u * 1 + \<tau>"
    using fl_error_small[of x 1] x unfolding u_def \<tau>_def by auto
  have fb: "\<bar>100 * f\<bar> \<le> 101"
    using f(2) x u by (simp add: abs_le_iff) 
  obtain g where g: "fl (f * 100) = Num g" "\<bar>g - f * 100\<bar> \<le> u * 101 + \<tau>"
    using fl_error_small[of "f * 100" 101] fb unfolding u_def \<tau>_def by (auto simp: mult.commute)
  have "percent c t = Num g"
    using assms f(1) g(1) by (simp add: percent_def js_nat_def x_def)
  moreover have "\<bar>g - 100 * x\<bar> \<le> 202 * u"
    using g(2) f(2) u by (simp add: abs_le_iff)
  ultimately show ?thesis
    unfolding x_def u_def by blast
qed

lemma percent_zero: "0 < t \<Longrightarrow> percent 0 t = Num 0"
  by (simp add: percent_def js_nat_def fl_def)

lemma percent_all: "0 < t \<Longrightarrow> percent t t = Num 100"
  using fl_exact_int[of 1] fl_exact_int[of 100] by (simp add: percent_def js_nat_def)

lemma percent_sum:
  assumes "0 < a + b"
  shows "\<exists>p q s. percent a (a + b) = Num p \<and> percent b (a + b) = Num q \<and>
           js_add (percent a (a + b)) (percent b (a + b)) = Num s \<and>
           \<bar>p + q - 100\<bar> \<le> 1 / 10 ^ 13 \<and> \<bar>s - 100\<bar> \<le> 1 / 10 ^ 13"
proof -
  define u :: real where "u = 2 powi (- 53)"
  define \<tau> :: real where "\<tau> = 2 powi (- 1075)"
  have u: "0 < u" "u = 1 / 9007199254740992" "0 < \<tau>" "\<tau> \<le> u / 1000000"
    using ulp_values by (simp_all add: u_def \<tau>_def)
  obtain p where p: "percent a (a + b) = Num p"
    "\<bar>p - 100 * (real a / real (a + b))\<bar> \<le> 202 * u"
    using percent_bound[of a "a + b"] assms unfolding u_def by auto
  obtain q where q: "percent b (a + b) = Num q"
    "\<bar>q - 100 * (real b / real (a + b))\<bar> \<le> 202 * u"
    using percent_bound[of b "a + b"] assms unfolding u_def by auto
  have "0 < real (a + b)"
    using assms by (simp only: of_nat_0_less_iff)
  then have "(real a + real b) / real (a + b) = 1"
    by (simp only: of_nat_add[symmetric] divide_self_if) simp
  then have one: "real a / real (a + b) + real b / real (a + b) = 1"
    by (simp only: add_divide_distrib)
  then have "100 * (real a / real (a + b)) + 100 * (real b / real (a + b)) = 100"
    by linarith
  then have pq: "\<bar>p + q - 100\<bar> \<le> 404 * u"
    using p(2) q(2) by linarith
  then have "\<bar>p + q\<bar> \<le> 101"
    using u by linarith
  then obtain s where s: "fl (p + q) = Num s" "\<bar>s - (p + q)\<bar> \<le> u * 101 + \<tau>"
    using fl_error_small[of "p + q" 101] unfolding u_def \<tau>_def by auto
  have "\<bar>s - 100\<bar> \<le> 506 * u"
    using s(2) pq u by linarith
  then have "\<bar>s - 100\<bar> \<le> 1 / 10 ^ 13" "\<bar>p + q - 100\<bar> \<le> 1 / 10 ^ 13"
    using pq u by simp_all
  then show ?thesis
    using p(1) q(1) s(1) by simp
qed

lemma round2_bound:
  assumes "\<bar>y\<bar> \<le> 2 ^ 60"
  shows "\<exists>k. round2 (Num y) = fl (of_int k / 100) \<and>
           \<bar>of_int k - 100 * y\<bar> \<le> 1 / 2 + (2 powi (- 53) * (100 * \<bar>y\<bar>) + 2 powi (- 1075))"
proof -
  define u :: real where "u = 2 powi (- 53)"
  define \<tau> :: real where "\<tau> = 2 powi (- 1075)"
  have y100: "\<bar>y * 100\<bar> = 100 * \<bar>y\<bar>"
    by (simp add: abs_mult)
  have "\<bar>y * 100\<bar> \<le> 2 ^ 60 * 100"
    using assms unfolding y100 by simp
  also have "\<dots> \<le> (2::real) powi 1023"
    by simp
  finally obtain x where x: "fl (y * 100) = Num x"
    "\<bar>x - y * 100\<bar> \<le> u * (100 * \<bar>y\<bar>) + \<tau>"
    using fl_error[of "y * 100"] unfolding y100 u_def \<tau>_def by blast
  define k where "k = \<lfloor>x + 1 / 2\<rfloor>"
  have "of_int k \<le> x + 1 / 2" "x + 1 / 2 < of_int k + 1"
    unfolding k_def by linarith+
  then have "\<bar>of_int k - x\<bar> \<le> 1 / 2"
    by linarith
  then have "\<bar>of_int k - 100 * y\<bar> \<le> 1 / 2 + (u * (100 * \<bar>y\<bar>) + \<tau>)"
    using x(2) by linarith
  moreover have "round2 (Num y) = fl (of_int k / 100)"
    by (simp add: round2_def x(1) k_def)
  ultimately show ?thesis
    unfolding u_def \<tau>_def by blast
qed

lemma mean_bound:
  fixes S :: int and n :: nat
  assumes "\<bar>S\<bar> \<le> 2 ^ 53" "0 < n"
  defines "H \<equiv> of_int S / (real n * 3600000)"
  shows "\<exists>hours days kh kd.
     js_div (js_div (Num (of_int S)) (js_nat n)) (Num 3600000) = Num hours \<and>
     js_div (Num hours) (Num 24) = Num days \<and>
     round2 (Num hours) = fl (of_int kh / 100) \<and>
     \<bar>of_int kh - 100 * H\<bar> \<le> 1 / 2 + 2 powi (- 50) * (100 * \<bar>H\<bar> + 1) \<and>
     round2 (Num days) = fl (of_int kd / 100) \<and>
     \<bar>of_int kd - 100 * (H / 24)\<bar> \<le> 1 / 2 + 2 powi (- 50) * (100 * \<bar>H / 24\<bar> + 1)"
proof -
  define u :: real where "u = 1 / 9007199254740992"
  define \<tau> :: real where "\<tau> = 2 powi (- 1075)"
  have u: "2 powi (- 53) = u" "2 powi (- 50) = 8 * u" "0 < \<tau>" "\<tau> \<le> u / 1000000"
    using ulp_values by (simp_all add: u_def \<tau>_def)
  define M where "M = real_of_int S / real n"
  define A where "A = \<bar>H\<bar>"
  have n: "1 \<le> real n"
    using assms(2) by simp
  have MS: "\<bar>M\<bar> \<le> \<bar>real_of_int S\<bar>"
  proof -
    have "\<bar>real_of_int S\<bar> / real n \<le> \<bar>real_of_int S\<bar> / 1"
      using n by (intro divide_left_mono) simp_all
    then show ?thesis
      unfolding M_def abs_divide by simp
  qed
  have S: "\<bar>real_of_int S\<bar> \<le> 2 ^ 53"
    using assms(1) by (metis of_int_abs of_int_le_numeral_power_cancel_iff)
  have MA: "\<bar>M\<bar> = 3600000 * A" "H = M / 3600000"
    unfolding A_def H_def M_def by (simp_all add: abs_divide)
  have A0: "0 \<le> A" by (simp add: A_def)
  have Ab: "A \<le> 2 ^ 53"
    using MS S MA(1) by linarith
  have "\<bar>M\<bar> \<le> 2 powi 1023"
    using MS S by simp
  then obtain m where m: "fl M = Num m" "\<bar>m - M\<bar> \<le> u * \<bar>M\<bar> + \<tau>"
    using fl_error[of M] unfolding u \<tau>_def by blast
  have mH: "\<bar>m / 3600000 - H\<bar> \<le> u * A + \<tau>"
  proof -
    have "\<bar>m / 3600000 - H\<bar> = \<bar>m - M\<bar> / 3600000"
      unfolding MA(2) by (simp add: diff_divide_distrib[symmetric])
    also have "\<dots> \<le> (u * (3600000 * A) + \<tau>) / 3600000"
      using m(2) unfolding MA(1) by (intro divide_right_mono) simp_all
    also have "\<dots> \<le> u * A + \<tau>"
      using u(3) by (simp add: add_divide_distrib)
    finally show ?thesis .
  qed
  have mb: "\<bar>m / 3600000\<bar> \<le> A + u * A + \<tau>"
    using mH unfolding A_def by linarith
  have "\<bar>m / 3600000\<bar> \<le> 2 powi 1023"
  proof -
    have "A + u * A + \<tau> \<le> 2 ^ 53 + 2 ^ 53 + 1"
      using Ab A0 u(3,4) unfolding u_def by (intro add_mono) simp_all
    also have "\<dots> \<le> (2::real) powi 1023"
      by simp
    finally show ?thesis using mb by linarith
  qed
  then obtain hh where hh: "fl (m / 3600000) = Num hh"
    "\<bar>hh - m / 3600000\<bar> \<le> u * \<bar>m / 3600000\<bar> + \<tau>"
    using fl_error[of "m / 3600000"] unfolding u \<tau>_def by blast
  have uA: "0 \<le> u * A" "u * (u * A) \<le> u * A"
    using A0 unfolding u_def by simp_all
  have hH: "\<bar>hh - H\<bar> \<le> 3 * (u * A) + 3 * \<tau>"
  proof -
    have "u * \<bar>m / 3600000\<bar> \<le> u * (A + u * A + \<tau>)"
      using mb unfolding u_def by (intro mult_left_mono) simp_all
    also have "\<dots> \<le> u * A + u * A + \<tau>"
      using uA u(3) unfolding u_def by (simp add: algebra_simps)
    finally show ?thesis
      using hh(2) mH by linarith
  qed
  have hb: "\<bar>hh\<bar> \<le> 2 * A + 3 * \<tau>"
  proof -
    have "3 * (u * A) \<le> A"
      using A0 unfolding u_def by simp
    then show ?thesis
      using hH unfolding A_def by linarith
  qed
  have hh60: "\<bar>hh\<bar> \<le> 2 ^ 60"
  proof -
    have "2 * A + 3 * \<tau> \<le> 2 * 2 ^ 53 + 1"
      using Ab u(3,4) unfolding u_def by (intro add_mono) simp_all
    then show ?thesis
      using hb by simp
  qed
  obtain kh where kh: "round2 (Num hh) = fl (of_int kh / 100)"
    "\<bar>of_int kh - 100 * hh\<bar> \<le> 1 / 2 + (u * (100 * \<bar>hh\<bar>) + \<tau>)"
    using round2_bound[OF hh60] unfolding u \<tau>_def by blast
  have khH: "\<bar>of_int kh - 100 * H\<bar> \<le> 1 / 2 + 8 * u * (100 * A + 1)"
  proof -
    have "u * (100 * \<bar>hh\<bar>) \<le> u * (100 * (2 * A + 3 * \<tau>))"
      using hb unfolding u_def by (intro mult_left_mono) simp_all
    also have "\<dots> \<le> 200 * (u * A) + \<tau>"
      using u(3) unfolding u_def by (simp add: algebra_simps)
    finally have "\<bar>of_int kh - 100 * hh\<bar> \<le> 1 / 2 + 200 * (u * A) + 2 * \<tau>"
      using kh(2) by linarith
    then have "\<bar>of_int kh - 100 * H\<bar> \<le> 1 / 2 + 500 * (u * A) + 302 * \<tau>"
      using hH by linarith
    moreover have "302 * \<tau> \<le> 8 * u"
      using u(4) unfolding u_def by simp
    ultimately show ?thesis
      using uA(1) by (simp add: algebra_simps)
  qed
  have "\<bar>hh / 24\<bar> \<le> 2 powi 1023"
    using hh60 by simp
  then obtain dd where dd: "fl (hh / 24) = Num dd"
    "\<bar>dd - hh / 24\<bar> \<le> u * \<bar>hh / 24\<bar> + \<tau>"
    using fl_error[of "hh / 24"] unfolding u \<tau>_def by blast
  define B where "B = \<bar>H / 24\<bar>"
  have B: "A = 24 * B" "0 \<le> B"
    by (simp_all add: A_def B_def)
  have uB: "0 \<le> u * B"
    using B(2) unfolding u_def by simp
  have hD: "\<bar>hh / 24 - H / 24\<bar> \<le> 3 * (u * B) + \<tau>"
  proof -
    have "\<bar>hh / 24 - H / 24\<bar> = \<bar>hh - H\<bar> / 24"
      by (simp add: diff_divide_distrib[symmetric])
    also have "\<dots> \<le> (3 * (u * A) + 3 * \<tau>) / 24"
      using hH by (intro divide_right_mono) simp_all
    also have "\<dots> \<le> 3 * (u * B) + \<tau>"
      using u(3) unfolding B(1) by simp
    finally show ?thesis .
  qed
  have h24: "\<bar>hh / 24\<bar> \<le> 2 * B + \<tau>"
  proof -
    have "3 * (u * B) \<le> B"
      using B(2) unfolding u_def by simp
    then show ?thesis
      using hD unfolding B_def by linarith
  qed
  have dD: "\<bar>dd - H / 24\<bar> \<le> 5 * (u * B) + 3 * \<tau>"
  proof -
    have "u * \<bar>hh / 24\<bar> \<le> u * (2 * B + \<tau>)"
      using h24 unfolding u_def by (intro mult_left_mono) simp_all
    also have "\<dots> \<le> 2 * (u * B) + \<tau>"
      using u(3) unfolding u_def by (simp add: algebra_simps)
    finally show ?thesis
      using dd(2) hD by linarith
  qed
  have db: "\<bar>dd\<bar> \<le> 2 * B + 3 * \<tau>"
  proof -
    have "5 * (u * B) \<le> B"
      using B(2) unfolding u_def by simp
    then show ?thesis
      using dD unfolding B_def by linarith
  qed
  have dd60: "\<bar>dd\<bar> \<le> 2 ^ 60"
  proof -
    have "2 * B + 3 * \<tau> \<le> 2 * 2 ^ 53 + 1"
      using Ab u(3,4) B unfolding u_def by (intro add_mono) simp_all
    then show ?thesis
      using db by simp
  qed
  obtain kd where kd: "round2 (Num dd) = fl (of_int kd / 100)"
    "\<bar>of_int kd - 100 * dd\<bar> \<le> 1 / 2 + (u * (100 * \<bar>dd\<bar>) + \<tau>)"
    using round2_bound[OF dd60] unfolding u \<tau>_def by blast
  have kdD: "\<bar>of_int kd - 100 * (H / 24)\<bar> \<le> 1 / 2 + 8 * u * (100 * B + 1)"
  proof -
    have "u * (100 * \<bar>dd\<bar>) \<le> u * (100 * (2 * B + 3 * \<tau>))"
      using db unfolding u_def by (intro mult_left_mono) simp_all
    also have "\<dots> \<le> 200 * (u * B) + \<tau>"
      using u(3) unfolding u_def by (simp add: algebra_simps)
    finally have "\<bar>of_int kd - 100 * dd\<bar> \<le> 1 / 2 + 200 * (u * B) + 2 * \<tau>"
      using kd(2) by linarith
    then have "\<bar>of_int kd - 100 * (H / 24)\<bar> \<le> 1 / 2 + 700 * (u * B) + 302 * \<tau>"
      using dD by linarith
    moreover have "302 * \<tau> \<le> 8 * u"
      using u(4) unfolding u_def by simp
    ultimately show ?thesis
      using uB by (simp add: algebra_simps)
  qed
  have "js_div (js_div (Num (of_int S)) (js_nat n)) (Num 3600000) = Num hh"
    using assms(2) m(1) hh(1) by (simp add: js_nat_def M_def)
  moreover have "js_div (Num hh) (Num 24) = Num dd"
    using dd(1) by simp
  ultimately show ?thesis
    using kh(1) khH kd(1) kdD unfolding u(2) A_def B_def by blast
qed

text \<open>Evaluating \<open>fl\<close> on numerals.\<close>

lemma expo_numeral:
  "expo (numeral k) x e =
     (if 2 \<le> x then expo (pred_numeral k) (x / 2) (e + 1)
      else if x < 1 then expo (pred_numeral k) (2 * x) (e - 1)
      else e)"
  by (simp add: numeral_eq_Suc)

lemmas fl_eval = fl_def rne_def Let_def power_int_minus_divide expo_numeral

section \<open>Status counters\<close>

lemma counted_countStatus:
  "counted (countStatus h c issue) = counted c + (if recognizedStatus h issue then 1 else 0)"
  by (simp add: countStatus_def counted_def recognizedStatus_def Let_def)

lemma counted_foldl:
  "counted (foldl (countStatus h) c issues) =
     counted c + length (filter (recognizedStatus h) issues)"
  by (induction issues arbitrary: c) (simp_all add: counted_countStatus)

lemma counted_statusCounts:
  "counted (statusCounts h issues) = length (filter (recognizedStatus h) issues)"
  by (simp add: statusCounts_def counted_foldl) (simp add: counted_def)

lemma length_filter_eq_iff: "length (filter P xs) = length xs \<longleftrightarrow> (\<forall>x\<in>set xs. P x)"
  by (induction xs) (auto simp: le_imp_less_Suc[OF length_filter_le] less_imp_neq)

lemma analyze_Inr:
  assumes "analyze h (Some issues) = Inr r"
  shows "issues \<noteq> []"
    and "statusBreakdown r = statusBreakdownOf h issues"
    and "priorityBreakdown r = priorityBreakdownOf h issues"
    and "resolutionTimeliness r = resolutionTimelinessOf h issues"
    and "highPriorityAnalysis r = highPriorityAnalysisOf h issues"
    and "longestToSolveHighPriority r = longestToSolveHighPriorityOf h issues"
    and "totalIssues (additionalInsights r) = length issues"
    and "issuesByType (additionalInsights r) = issuesByTypeOf h issues"
    and "averageSatisfactionByPriorityOf h issues = Inr (averageSatisfactionByPriority (additionalInsights r))"
    and "issuesClosedCount (additionalInsights r) = closed' (statusCounts h issues)"
    and "issuesOpenCount (additionalInsights r) = open' (statusCounts h issues)"
  using assms by (auto simp: analyze_def split: if_splits sum.splits)

lemma counted_statusBreakdownOf:
  "counted (statusBreakdownOf h issues) = counted (statusCounts h issues)"
  by (simp add: statusBreakdownOf_def counted_def Let_def)

lemma averageSatisfaction_sample:
  "averageSatisfactionByPriorityOf sampleHost sampleIssues =
     Inr [(''high'', ''bad''), (''normal'', ''excellent'')]"
  by (simp add: averageSatisfactionByPriorityOf_def satisfactionByPriority_def collectScore_def
      ratingScore_def inheritedText_def sampleHost_def sampleIssues_def ticket_def lowerChar_def
      ownEntries_def isArrayIndex_def isDigit_def scoreCounts_def increment_def assign_def
      mostCommon_def)

lemma analyze_sample: "\<exists>r. analyze sampleHost (Some sampleIssues) = Inr r"
  using averageSatisfaction_sample by (simp add: analyze_def) (simp add: sampleIssues_def)

lemma recognized_sample:
  "filter (recognizedStatus sampleHost) sampleIssues = take 3 sampleIssues"
  by (simp add: recognizedStatus_def sampleHost_def sampleIssues_def ticket_def lowerChar_def)

text \<open>
  C6. The six status counters of the report add up to the number of records whose
  lower-cased status is one of the six recognized values: at most \<open>totalIssues\<close>, the
  length of the input, and equal to it exactly when every record has a recognized status.
  A record with another status is in no counter and still in \<open>totalIssues\<close>.
\<close>

theorem status_counters_bounded:
  "counted (statusBreakdownOf h issues) = length (filter (recognizedStatus h) issues) \<and>
   counted (statusBreakdownOf h issues) \<le> length issues \<and>
   (counted (statusBreakdownOf h issues) = length issues
      \<longleftrightarrow> (\<forall>issue \<in> set issues. recognizedStatus h issue)) \<and>
   (\<forall>r. analyze h (Some issues) = Inr r \<longrightarrow>
      statusBreakdown r = statusBreakdownOf h issues \<and>
      totalIssues (additionalInsights r) = length issues)"
proof -
  have sum: "counted (statusBreakdownOf h issues) = length (filter (recognizedStatus h) issues)"
    by (simp add: counted_statusBreakdownOf counted_statusCounts)
  have report: "statusBreakdown r = statusBreakdownOf h issues \<and>
      totalIssues (additionalInsights r) = length issues"
    if "analyze h (Some issues) = Inr r" for r
    using analyze_Inr(2,7)[OF that] by simp
  show ?thesis
    using report by (simp add: sum length_filter_eq_iff)
qed

theorem status_counters_bounded_witness:
  "\<exists>r. analyze sampleHost (Some sampleIssues) = Inr r \<and>
       counted (statusBreakdown r) = 3 \<and> totalIssues (additionalInsights r) = 4 \<and>
       \<not> recognizedStatus sampleHost (sampleIssues ! 3)"
proof -
  obtain r where r: "analyze sampleHost (Some sampleIssues) = Inr r"
    using analyze_sample by blast
  have "counted (statusBreakdown r) = 3" "totalIssues (additionalInsights r) = 4"
    using status_counters_bounded [of sampleHost sampleIssues] r
    by (simp_all add: recognized_sample) (simp_all add: sampleIssues_def)
  moreover have "\<not> recognizedStatus sampleHost (sampleIssues ! 3)"
    by (simp add: recognizedStatus_def sampleHost_def sampleIssues_def ticket_def lowerChar_def)
  ultimately show ?thesis
    using r by blast
qed


section \<open>Dictionaries\<close>

lemma firstSeen_snoc: "firstSeen (xs @ [x]) = firstSeen xs @ (if x \<in> set xs then [] else [x])"
  by (simp add: firstSeen_def)

lemma firstSeen_Nil [simp]: "firstSeen [] = []"
  by (simp add: firstSeen_def)

lemma set_firstSeen [simp]: "set (firstSeen xs) = set xs"
  by (simp add: firstSeen_def)

lemma distinct_firstSeen [simp]: "distinct (firstSeen xs)"
  by (simp add: firstSeen_def)

lemma set_ownEntries [simp]: "set (ownEntries obj) = set obj"
  by (auto simp: ownEntries_def)

lemma ownEntries_Nil_iff [simp]: "ownEntries obj = [] \<longleftrightarrow> obj = []"
  using set_ownEntries[of obj] by (metis set_empty)

lemma distinct_ownEntries:
  assumes "distinct (map fst obj)"
  shows "distinct (map fst (ownEntries obj))"
proof -
  have inj: "inj_on fst (set obj)" and d: "distinct obj"
    using assms by (simp_all add: distinct_map)
  have "distinct (ownEntries obj)"
    using d by (auto simp: ownEntries_def)
  then show ?thesis
    using inj by (simp add: distinct_map)
qed

lemma map_of_ownEntries:
  assumes "distinct (map fst obj)"
  shows "map_of (ownEntries obj) = map_of obj"
  by (rule map_of_inject_set[THEN iffD2, OF distinct_ownEntries[OF assms] assms]) simp

lemma plainKey_not_proto: "plainKey k \<Longrightarrow> k \<noteq> ''__proto__''"
  by (auto simp: plainKey_def inheritedText_def)

lemma increment_plain:
  assumes "plainKey k" "countCells obj"
  shows "increment obj k =
     AList.update k (Count (case map_of obj k of None \<Rightarrow> 1 | Some c \<Rightarrow> tally c + 1)) obj"
proof (cases "map_of obj k")
  case None
  then show ?thesis
    using assms plainKey_not_proto[OF assms(1)]
    by (simp add: increment_def assign_def plainKey_def)
next
  case (Some c)
  then have "c \<in> snd ` set obj"
    by (metis image_eqI map_of_SomeD snd_conv)
  then obtain n where "c = Count n" "0 < n"
    using assms(2) by (auto simp: countCells_def)
  then show ?thesis
    using Some plainKey_not_proto[OF assms(1)]
    by (simp add: increment_def assign_def tally_def)
qed

lemma set_update_subset: "set (AList.update k v al) \<subseteq> insert (k, v) (set al)"
  by (induction al) auto

lemma countCells_update:
  assumes "countCells obj" "0 < n"
  shows "countCells (AList.update k (Count n) obj)"
  using assms set_update_subset[of k "Count n" obj] unfolding countCells_def
  by fastforce

lemma scoreCounts_snoc: "scoreCounts (scores @ [s]) = increment (scoreCounts scores) s"
  by (simp add: scoreCounts_def)

lemma scoreCounts_plain:
  assumes "plainScores scores"
  shows "countCells (scoreCounts scores) \<and>
         map fst (scoreCounts scores) = firstSeen scores \<and>
         (\<forall>s. map_of (scoreCounts scores) s =
            (if s \<in> set scores then Some (Count (count_list scores s)) else None))"
  using assms
proof (induction scores rule: rev_induct)
  case Nil
  then show ?case by (simp add: scoreCounts_def countCells_def)
next
  case (snoc x xs)
  then have plain: "plainScores xs" "plainKey x"
    by (simp_all add: plainScores_def)
  note IH = snoc.IH[OF plain(1)]
  let ?obj = "scoreCounts xs"
  let ?n = "(case map_of ?obj x of None \<Rightarrow> 1 | Some c \<Rightarrow> tally c + 1)"
  have step: "scoreCounts (xs @ [x]) = AList.update x (Count ?n) ?obj"
    using increment_plain[OF plain(2)] IH by (simp add: scoreCounts_snoc)
  have n: "?n = count_list xs x + 1"
    using IH by (simp add: tally_def)
  have "countCells (scoreCounts (xs @ [x]))"
    unfolding step using IH by (intro countCells_update) (simp_all add: n)
  moreover have "map fst (scoreCounts (xs @ [x])) = firstSeen (xs @ [x])"
    unfolding step using IH by (simp add: update_keys firstSeen_snoc)
  moreover have "map_of (scoreCounts (xs @ [x])) s =
      (if s \<in> set (xs @ [x]) then Some (Count (count_list (xs @ [x]) s)) else None)" for s
    unfolding step using IH by (simp add: update_conv' tally_def)
  ultimately show ?case by blast
qed

text \<open>The reduction that keeps the later of two candidates unless the earlier is greater.\<close>

lemma keep_later_last_max:
  fixes f :: "'a \<Rightarrow> nat"
  shows "foldl (\<lambda>a b. if f b < f a then a else b) x xs =
         last (filter (\<lambda>y. \<forall>z \<in> set (x # xs). f z \<le> f y) (x # xs))"
proof (induction xs rule: rev_induct)
  case Nil
  then show ?case by simp
next
  case (snoc b xs)
  let ?a = "foldl (\<lambda>a b. if f b < f a then a else b) x xs"
  let ?P = "\<lambda>y. \<forall>z \<in> set (x # xs). f z \<le> f y"
  let ?Q = "\<lambda>y. \<forall>z \<in> set (x # xs @ [b]). f z \<le> f y"
  have ne: "filter ?P (x # xs) \<noteq> []"
  proof -
    obtain m where "m \<in> set (x # xs)" "\<forall>z \<in> set (x # xs). f z \<le> f m"
      using arg_max_nat_lemma[of "\<lambda>y. y \<in> set (x # xs)" x f "Suc (Max (f ` set (x # xs)))"]
      by (metis List.finite_set Max_ge finite_imageI image_eqI le_imp_less_Suc list.set_intros(1))
    then show ?thesis
      by (auto simp: filter_empty_conv)
  qed
  have a_in: "?a \<in> set (filter ?P (x # xs))"
    using snoc.IH last_in_set[OF ne] by simp
  then have a_max: "\<forall>z \<in> set (x # xs). f z \<le> f ?a"
    unfolding set_filter by blast
  show ?case
  proof (cases "f b < f ?a")
    case True
    have "filter ?Q (x # xs @ [b]) = filter ?P (x # xs)"
    proof -
      have "?a \<in> set (x # xs @ [b])"
        using a_in unfolding set_filter by auto
      then have "\<not> ?Q b"
        using True by (meson not_le)
      moreover have "?Q y \<longleftrightarrow> ?P y" if "y \<in> set (x # xs)" for y
      proof
        assume "?Q y" then show "?P y" by simp
      next
        assume P: "?P y"
        moreover have "?a \<in> set (x # xs)"
          using a_in unfolding set_filter by blast
        ultimately have "f ?a \<le> f y"
          by blast
        then show "?Q y"
          using P True by auto
      qed
      ultimately have "filter ?Q ((x # xs) @ [b]) = filter ?P (x # xs)"
        unfolding filter_append by (auto intro!: filter_cong)
      then show ?thesis by simp
    qed
    then show ?thesis
      using True snoc.IH by simp
  next
    case False
    then have "?Q b"
      using a_max by (auto intro: order_trans)
    then have "last (filter ?Q ((x # xs) @ [b])) = b"
      unfolding filter_append by simp
    then show ?thesis
      using False by simp
  qed
qed

lemma map_insort_key: "map f (insort_key (\<lambda>x. g (f x)) x xs) = insort_key g (f x) (map f xs)"
  by (induction xs) simp_all

lemma map_sort_key: "map f (sort_key (\<lambda>x. g (f x)) xs) = sort_key g (map f xs)"
  by (induction xs) (simp_all add: map_insort_key)

lemma Object_keys_enumerationOrder: "Object_keys obj = enumerationOrder (map fst obj)"
  by (simp add: Object_keys_def ownEntries_def enumerationOrder_def map_sort_key filter_map o_def)

lemma set_enumerationOrder [simp]: "set (enumerationOrder ks) = set ks"
  by (auto simp: enumerationOrder_def)

lemma enumerationOrder_no_index:
  "\<forall>k \<in> set ks. \<not> isArrayIndex k \<Longrightarrow> enumerationOrder ks = ks"
  by (simp add: enumerationOrder_def filter_empty_conv[THEN iffD2] filter_id_conv[THEN iffD2])

lemma keep_later_cells:
  assumes "\<forall>e \<in> set (x # xs). \<exists>n. snd e = Count n"
  shows "foldl (\<lambda>a b. if cell_gt (snd a) (snd b) then a else b) x xs =
         foldl (\<lambda>a b. if tally (snd b) < tally (snd a) then a else b) x xs \<and>
         foldl (\<lambda>a b. if cell_gt (snd a) (snd b) then a else b) x xs \<in> set (x # xs)"
  using assms
proof (induction xs rule: rev_induct)
  case Nil
  then show ?case by simp
next
  case (snoc b xs)
  let ?a = "foldl (\<lambda>a b. if cell_gt (snd a) (snd b) then a else b) x xs"
  have prem: "\<forall>e \<in> set (x # xs). \<exists>n. snd e = Count n"
    using snoc.prems by simp
  have IH: "?a = foldl (\<lambda>a b. if tally (snd b) < tally (snd a) then a else b) x xs"
    "?a \<in> set (x # xs)"
    using snoc.IH[OF prem] by blast+
  have "b \<in> set (x # xs @ [b])"
    by simp
  then obtain m n where "snd ?a = Count m" "snd b = Count n"
    using IH(2) prem snoc.prems by blast
  then have "cell_gt (snd ?a) (snd b) \<longleftrightarrow> tally (snd b) < tally (snd ?a)"
    by (simp add: tally_def)
  then show ?case
    using IH by (auto simp del: cell_gt.simps)
qed

lemma mostCommon_plain:
  assumes "plainScores scores" "scores \<noteq> []"
  shows "mostCommon (scoreCounts scores) =
           Inr (lastMostFrequent (Object_keys (scoreCounts scores)) scores)"
proof -
  let ?obj = "scoreCounts scores"
  note sc = scoreCounts_plain[OF assms(1)]
  have keys: "map fst ?obj = firstSeen scores"
    using sc by blast
  then have d: "distinct (map fst ?obj)"
    by simp
  have ne: "?obj \<noteq> []"
    using keys assms(2) by (metis list.map_disc_iff set_empty set_firstSeen)
  then obtain first others where es: "ownEntries ?obj = first # others"
    by (cases "ownEntries ?obj") simp_all
  have cell: "snd e = Count (count_list scores (fst e))" if "e \<in> set (ownEntries ?obj)" for e
  proof -
    have "map_of ?obj (fst e) = Some (snd e)"
      using that d by simp
    moreover have "fst e \<in> set scores"
      using that keys by (metis image_eqI list.set_map set_firstSeen set_ownEntries)
    ultimately show ?thesis
      using sc by simp
  qed
  then have cells: "\<forall>e \<in> set (first # others). \<exists>n. snd e = Count n"
    unfolding es[symmetric] by blast
  define ks where "ks = Object_keys ?obj"
  have ks: "ks = map fst (first # others)"
    by (simp add: ks_def Object_keys_def es)
  let ?f = "\<lambda>e::string \<times> cell. tally (snd e)"
  let ?P = "\<lambda>y. \<forall>z \<in> set (first # others). ?f z \<le> ?f y"
  let ?K = "\<lambda>s. \<forall>t \<in> set ks. count_list scores t \<le> count_list scores s"
  have pick: "foldl (\<lambda>a b. if cell_gt (snd a) (snd b) then a else b) first others =
      last (filter ?P (first # others))"
    using keep_later_cells[OF cells] keep_later_last_max[of ?f first others] by simp
  have f: "?f z = count_list scores (fst z)" if "z \<in> set (first # others)" for z
    using cell[of z] that es by (simp add: tally_def)
  have PK: "?K (fst e) \<longleftrightarrow> ?P e" if "e \<in> set (first # others)" for e
  proof -
    have "?P e \<longleftrightarrow> (\<forall>z \<in> set (first # others). count_list scores (fst z) \<le> count_list scores (fst e))"
      using f that by (metis (no_types, lifting))
    also have "\<dots> \<longleftrightarrow> ?K (fst e)"
      unfolding ks by (simp only: set_map ball_simps)
    finally show ?thesis by simp
  qed
  have "filter ?K ks = map fst (filter (\<lambda>e. ?K (fst e)) (first # others))"
    unfolding ks by (simp only: filter_map o_def)
  also have "filter (\<lambda>e. ?K (fst e)) (first # others) = filter ?P (first # others)"
    by (rule filter_cong[OF refl]) (rule PK)
  finally have filt: "filter ?K ks = map fst (filter ?P (first # others))" .
  have "filter ?P (first # others) \<noteq> []"
  proof -
    obtain m where "m \<in> set (first # others)" "\<forall>z \<in> set (first # others). ?f z \<le> ?f m"
      using arg_max_nat_lemma[of "\<lambda>y. y \<in> set (first # others)" first ?f
          "Suc (Max (?f ` set (first # others)))"]
      by (metis List.finite_set Max_ge finite_imageI image_eqI le_imp_less_Suc list.set_intros(1))
    then show ?thesis
      unfolding filter_empty_conv by blast
  qed
  then have "lastMostFrequent ks scores = fst (last (filter ?P (first # others)))"
    unfolding lastMostFrequent_def filt by (rule last_map)
  then show ?thesis
    using pick unfolding ks_def by (simp add: mostCommon_def es)
qed

lemma priorityScores_Nil [simp]: "priorityScores h p [] = []"
  by (simp add: priorityScores_def map_filter_simps)

lemma priorityScores_Cons:
  "priorityScores h p (issue # issues) =
     (if priorityKey h issue = p
      then (case ratingScore issue of None \<Rightarrow> [] | Some s \<Rightarrow> [s]) @ priorityScores h p issues
      else priorityScores h p issues)"
  by (simp add: priorityScores_def map_filter_simps split: option.splits)

lemma priorityScores_empty_iff:
  "priorityScores h p issues = [] \<longleftrightarrow>
     \<not> (\<exists>issue \<in> set issues. priorityKey h issue = p \<and> ratingScore issue \<noteq> None)"
  by (induction issues) (auto simp: priorityScores_Cons split: option.splits)

lemma set_priorityScores:
  "set (priorityScores h p issues) =
     {s. \<exists>issue \<in> set issues. priorityKey h issue = p \<and> ratingScore issue = Some s}"
  by (induction issues) (auto simp: priorityScores_Cons split: option.splits)

lemma collectScore_Inl_iff:
  "(\<exists>e. collectScore h obj issue = Inl e) \<longleftrightarrow>
     ratingScore issue \<noteq> None \<and> map_of obj (priorityKey h issue) = None \<and>
     \<not> plainKey (priorityKey h issue)"
  by (auto simp: collectScore_def priorityKey_def plainKey_def Let_def update_conv'
      simp del: map_of_eq_Some_iff split: option.splits)

lemma collectScore_Inr:
  assumes "collectScore h obj issue = Inr obj'" "distinct (map fst obj)"
  shows "distinct (map fst obj')"
    and "map_of obj' k =
      (if k = priorityKey h issue \<and> (map_of obj k \<noteq> None \<or> plainKey k)
       then Some ((case map_of obj k of None \<Rightarrow> [] | Some ss \<Rightarrow> ss)
                  @ (case ratingScore issue of None \<Rightarrow> [] | Some s \<Rightarrow> [s]))
       else map_of obj k)"
proof -
  let ?p = "priorityKey h issue"
  let ?obj1 = "if map_of obj ?p = None \<and> inheritedText ?p = None then AList.update ?p [] obj else obj"
  have d1: "distinct (map fst ?obj1)"
    using assms(2) by (simp add: distinct_update)
  have m1: "map_of ?obj1 k =
      (if k = ?p \<and> map_of obj ?p = None \<and> plainKey ?p then Some [] else map_of obj k)" for k
    by (simp add: update_conv' plainKey_def)
  have obj': "obj' = (case ratingScore issue of
        None \<Rightarrow> ?obj1
      | Some s \<Rightarrow> AList.update ?p (the (map_of ?obj1 ?p) @ [s]) ?obj1)"
    and ok: "ratingScore issue \<noteq> None \<longrightarrow> map_of ?obj1 ?p \<noteq> None"
    using assms(1) unfolding collectScore_def priorityKey_def Let_def
    by (auto split: option.splits simp del: map_of_eq_Some_iff)
  show "distinct (map fst obj')"
    unfolding obj' using assms(2) by (cases "ratingScore issue") (simp_all add: distinct_update)
  show "map_of obj' k =
      (if k = ?p \<and> (map_of obj k \<noteq> None \<or> plainKey k)
       then Some ((case map_of obj k of None \<Rightarrow> [] | Some ss \<Rightarrow> ss)
                  @ (case ratingScore issue of None \<Rightarrow> [] | Some s \<Rightarrow> [s]))
       else map_of obj k)"
  proof (cases "ratingScore issue")
    case None
    then show ?thesis
      unfolding obj' by (auto simp: update_conv' plainKey_def split: option.splits)
  next
    case (Some s)
    then have "map_of ?obj1 ?p \<noteq> None"
      using ok by simp
    then have "map_of obj ?p \<noteq> None \<or> plainKey ?p"
      unfolding m1 by (simp split: if_splits)
    then show ?thesis
      unfolding obj' Some by (auto simp: update_conv' plainKey_def split: option.splits)
  qed
qed

lemma collectScores_Inr:
  assumes "collectScores h obj issues = Inr obj'" "distinct (map fst obj)"
  shows "distinct (map fst obj') \<and>
    (\<forall>k. map_of obj' k =
      (if map_of obj k \<noteq> None \<or> (plainKey k \<and> k \<in> priorityKey h ` set issues)
       then Some ((case map_of obj k of None \<Rightarrow> [] | Some ss \<Rightarrow> ss) @ priorityScores h k issues)
       else None))"
  using assms
proof (induction issues arbitrary: obj)
  case Nil
  then show ?case by (auto split: option.splits)
next
  case (Cons issue issues)
  from Cons.prems(1) obtain obj1 where
    step: "collectScore h obj issue = Inr obj1" and rest: "collectScores h obj1 issues = Inr obj'"
    by (auto split: sum.splits)
  note s = collectScore_Inr[OF step Cons.prems(2)]
  note IH = Cons.IH[OF rest s(1)]
  show ?case
  proof (intro conjI allI)
    show "distinct (map fst obj')" using IH by blast
  next
    fix k
    have "map_of obj' k =
      (if map_of obj1 k \<noteq> None \<or> (plainKey k \<and> k \<in> priorityKey h ` set issues)
       then Some ((case map_of obj1 k of None \<Rightarrow> [] | Some ss \<Rightarrow> ss) @ priorityScores h k issues)
       else None)"
      using IH by blast
    then show "map_of obj' k =
      (if map_of obj k \<noteq> None \<or> (plainKey k \<and> k \<in> priorityKey h ` set (issue # issues))
       then Some ((case map_of obj k of None \<Rightarrow> [] | Some ss \<Rightarrow> ss)
                  @ priorityScores h k (issue # issues))
       else None)"
      unfolding s(2)[of k] priorityScores_Cons
      by (auto split: option.splits)
  qed
qed

lemma collectScores_Inr_plain:
  assumes "collectScores h obj issues = Inr obj'"
  shows "\<forall>issue \<in> set issues. ratingScore issue \<noteq> None \<longrightarrow>
           plainKey (priorityKey h issue) \<or> map_of obj (priorityKey h issue) \<noteq> None"
  using assms
proof (induction issues arbitrary: obj)
  case Nil
  then show ?case by simp
next
  case (Cons issue issues)
  from Cons.prems(1) obtain obj1 where
    step: "collectScore h obj issue = Inr obj1" and rest: "collectScores h obj1 issues = Inr obj'"
    by (auto split: sum.splits)
  have here: "ratingScore issue \<noteq> None \<longrightarrow>
      plainKey (priorityKey h issue) \<or> map_of obj (priorityKey h issue) \<noteq> None"
    using step collectScore_Inl_iff[of h obj issue] by auto
  have keep: "map_of obj1 k \<noteq> None \<Longrightarrow> plainKey k \<or> map_of obj k \<noteq> None" for k
    using step
    by (auto simp: collectScore_def priorityKey_def plainKey_def Let_def update_conv'
        split: option.splits if_splits)
  show ?case
    using here Cons.IH[OF rest] keep by auto
qed

lemma collectScores_total:
  assumes "\<forall>issue \<in> set issues. ratingScore issue \<noteq> None \<longrightarrow> plainKey (priorityKey h issue)"
  shows "\<exists>obj'. collectScores h obj issues = Inr obj'"
  using assms
proof (induction issues arbitrary: obj)
  case Nil
  then show ?case by simp
next
  case (Cons issue issues)
  have "\<not> (\<exists>e. collectScore h obj issue = Inl e)"
    using Cons.prems unfolding collectScore_Inl_iff by auto
  then obtain obj1 where "collectScore h obj issue = Inr obj1"
    by (cases "collectScore h obj issue") auto
  then show ?case
    using Cons.IH[of obj1] Cons.prems by simp
qed

lemma assign_plain: "k \<noteq> ''__proto__'' \<Longrightarrow> assign obj k v = AList.update k v obj"
  by (simp add: assign_def)

lemma modes_Inr:
  assumes "modes entries result = Inr res" "distinct (map fst entries)"
    "\<forall>k \<in> fst ` set entries. k \<noteq> ''__proto__''" "distinct (map fst result)"
  shows "distinct (map fst res) \<and>
    (\<forall>k. map_of res k =
       (case map_of entries k of
          None \<Rightarrow> map_of result k
        | Some scores \<Rightarrow>
            if scores = [] then map_of result k
            else (case mostCommon (scoreCounts scores) of Inl e \<Rightarrow> None | Inr m \<Rightarrow> Some m)))"
  using assms
proof (induction entries result rule: modes.induct)
  case (1 result)
  then show ?case by simp
next
  case (2 p scores entries result)
  have p: "p \<noteq> ''__proto__''" "map_of entries p = None"
    using "2.prems"(2,3) by (auto simp: map_of_eq_None_iff)
  have d: "distinct (map fst entries)" "\<forall>k \<in> fst ` set entries. k \<noteq> ''__proto__''"
    using "2.prems"(2,3) by auto
  show ?case
  proof (cases "scores = []")
    case True
    then have "modes entries result = Inr res"
      using "2.prems"(1) by simp
    from "2.IH"(2)[OF _ this d "2.prems"(4)] True show ?thesis
      using p by auto
  next
    case False
    then obtain m where m: "mostCommon (scoreCounts scores) = Inr m"
      and rest: "modes entries (assign result p m) = Inr res"
      using "2.prems"(1) by (auto split: sum.splits)
    have "distinct (map fst (assign result p m))"
      using "2.prems"(4) p by (simp add: assign_plain distinct_update)
    from "2.IH"(1)[OF _ m rest d this] False show ?thesis
      using p m by (auto simp: assign_plain update_conv' split: option.splits)
  qed
qed

lemma modes_total:
  assumes "\<forall>(p, scores) \<in> set entries. scores \<noteq> [] \<longrightarrow> (\<exists>m. mostCommon (scoreCounts scores) = Inr m)"
  shows "\<exists>res. modes entries result = Inr res"
  using assms
  by (induction entries result rule: modes.induct) (auto split: sum.splits)

section \<open>Resolution timeliness\<close>

lemma resolved_not_unresolved: "resolved h issue \<Longrightarrow> \<not> unresolved h issue"
  by (auto simp: resolved_def unresolved_def)

lemma recognized_iff: "recognizedStatus h issue \<longleftrightarrow> resolved h issue \<or> unresolved h issue"
  by (auto simp: resolved_def unresolved_def recognizedStatus_def)

lemma countTimeliness_classes:
  "countTimeliness h c issue =
     c\<lparr>onTime := onTime c + (if resolvedOnTime h issue then 1 else 0),
       overdue := overdue c + (if resolvedOverdue h issue then 1 else 0),
       currentlyOverdue := currentlyOverdue c + (if nowOverdue h issue then 1 else 0)\<rparr>"
  by (simp add: countTimeliness_def resolvedOnTime_def resolvedOverdue_def nowOverdue_def
      resolved_def unresolved_def Let_def)

lemma timeliness_foldl:
  "foldl (countTimeliness h) c issues =
     c\<lparr>onTime := onTime c + length (filter (resolvedOnTime h) issues),
       overdue := overdue c + length (filter (resolvedOverdue h) issues),
       currentlyOverdue := currentlyOverdue c + length (filter (nowOverdue h) issues)\<rparr>"
  by (induction issues arbitrary: c) (simp_all add: countTimeliness_classes)

lemma timelinessCounts_filter:
  "timelinessCounts h issues =
     \<lparr>onTime = length (filter (resolvedOnTime h) issues),
      overdue = length (filter (resolvedOverdue h) issues),
      currentlyOverdue = length (filter (nowOverdue h) issues)\<rparr>"
  by (simp add: timelinessCounts_def timeliness_foldl)

lemma timeliness_exclusive:
  "\<not> (resolvedOnTime h issue \<and> resolvedOverdue h issue)"
  "\<not> (resolvedOnTime h issue \<and> nowOverdue h issue)"
  "\<not> (resolvedOverdue h issue \<and> nowOverdue h issue)"
  by (auto simp: resolvedOnTime_def resolvedOverdue_def nowOverdue_def dest: resolved_not_unresolved)

text \<open>
  C3. The timeliness loop classifies each record by its lower-cased status: a resolved
  record (closed, solved) counts as on time when \<open>updated <= due\<close> and as overdue
  otherwise; a record with one of the other four recognized statuses counts as currently
  overdue exactly when \<open>now > due\<close>; a record with any other status changes no
  counter. The three classes exclude each other, so a record is in at most one counter,
  and each counter of the report is the number of records of its class.
\<close>

theorem timeliness_classification:
  "onTime (resolutionTimelinessOf h issues) = length (filter (resolvedOnTime h) issues) \<and>
   overdue (resolutionTimelinessOf h issues) = length (filter (resolvedOverdue h) issues) \<and>
   currentlyOverdue (resolutionTimelinessOf h issues) = length (filter (nowOverdue h) issues) \<and>
   (\<forall>c issue.
      countTimeliness h c issue =
        (if resolved h issue then
           (if date_le (newDate h (updated issue)) (newDate h (due issue))
            then c\<lparr>onTime := onTime c + 1\<rparr> else c\<lparr>overdue := overdue c + 1\<rparr>)
         else if unresolved h issue then
           (if date_gt (Some (clock h)) (newDate h (due issue))
            then c\<lparr>currentlyOverdue := currentlyOverdue c + 1\<rparr> else c)
         else c)) \<and>
   (\<forall>issue. \<not> recognizedStatus h issue \<longrightarrow>
      \<not> resolvedOnTime h issue \<and> \<not> resolvedOverdue h issue \<and> \<not> nowOverdue h issue) \<and>
   (\<forall>issue. \<not> (resolvedOnTime h issue \<and> resolvedOverdue h issue) \<and>
      \<not> (resolvedOnTime h issue \<and> nowOverdue h issue) \<and>
      \<not> (resolvedOverdue h issue \<and> nowOverdue h issue)) \<and>
   (\<forall>r. analyze h (Some issues) = Inr r \<longrightarrow>
      resolutionTimeliness r = resolutionTimelinessOf h issues)"
proof -
  have counts:
    "onTime (resolutionTimelinessOf h issues) = length (filter (resolvedOnTime h) issues)"
    "overdue (resolutionTimelinessOf h issues) = length (filter (resolvedOverdue h) issues)"
    "currentlyOverdue (resolutionTimelinessOf h issues) = length (filter (nowOverdue h) issues)"
    by (simp_all add: resolutionTimelinessOf_def Let_def timelinessCounts_filter)
  have step: "countTimeliness h c issue =
        (if resolved h issue then
           (if date_le (newDate h (updated issue)) (newDate h (due issue))
            then c\<lparr>onTime := onTime c + 1\<rparr> else c\<lparr>overdue := overdue c + 1\<rparr>)
         else if unresolved h issue then
           (if date_gt (Some (clock h)) (newDate h (due issue))
            then c\<lparr>currentlyOverdue := currentlyOverdue c + 1\<rparr> else c)
         else c)" for c issue
    by (simp add: countTimeliness_def resolved_def unresolved_def Let_def)
  have none: "\<not> resolvedOnTime h issue \<and> \<not> resolvedOverdue h issue \<and> \<not> nowOverdue h issue"
    if "\<not> recognizedStatus h issue" for issue
    using that by (simp add: recognized_iff resolvedOnTime_def resolvedOverdue_def nowOverdue_def)
  have report: "resolutionTimeliness r = resolutionTimelinessOf h issues"
    if "analyze h (Some issues) = Inr r" for r
    using analyze_Inr(4)[OF that] .
  show ?thesis
    using counts step none timeliness_exclusive report by blast
qed

lemma timeliness_sample:
  "filter (resolvedOnTime sampleHost) sampleIssues = [sampleIssues ! 1]"
  "filter (resolvedOverdue sampleHost) sampleIssues = [sampleIssues ! 2]"
  "filter (nowOverdue sampleHost) sampleIssues = [sampleIssues ! 0]"
  by (simp_all add: resolvedOnTime_def resolvedOverdue_def nowOverdue_def resolved_def
      unresolved_def date_le_def date_gt_def sampleHost_def sampleIssues_def ticket_def
      lowerChar_def)

theorem timeliness_classification_witness:
  "onTime (resolutionTimelinessOf sampleHost sampleIssues) = 1 \<and>
   overdue (resolutionTimelinessOf sampleHost sampleIssues) = 1 \<and>
   currentlyOverdue (resolutionTimelinessOf sampleHost sampleIssues) = 1 \<and>
   \<not> recognizedStatus sampleHost (sampleIssues ! 3) \<and>
   \<not> nowOverdue sampleHost (sampleIssues ! 3) \<and>
   (\<exists>r. analyze sampleHost (Some sampleIssues) = Inr r \<and>
        resolutionTimeliness r = resolutionTimelinessOf sampleHost sampleIssues)"
proof -
  note c = timeliness_classification [of sampleHost sampleIssues]
  have "\<not> recognizedStatus sampleHost (sampleIssues ! 3)"
    by (simp add: recognizedStatus_def sampleHost_def sampleIssues_def ticket_def lowerChar_def)
  moreover from this have "\<not> nowOverdue sampleHost (sampleIssues ! 3)"
    using c by blast
  moreover obtain r where "analyze sampleHost (Some sampleIssues) = Inr r"
    using analyze_sample by blast
  moreover from this have "resolutionTimeliness r = resolutionTimelinessOf sampleHost sampleIssues"
    using c by blast
  ultimately show ?thesis
    using c by (auto simp: timeliness_sample)
qed

section \<open>The most common score of a priority\<close>

lemma lastMostFrequent_max:
  assumes "set ks = set scores" "scores \<noteq> []"
  shows "lastMostFrequent ks scores \<in> set scores \<and>
         (\<forall>t. count_list scores t \<le> count_list scores (lastMostFrequent ks scores))"
proof -
  let ?P = "\<lambda>s. \<forall>t \<in> set ks. count_list scores t \<le> count_list scores s"
  have ne: "ks \<noteq> []"
    using assms by auto
  then obtain k0 where "k0 \<in> set ks"
    by (cases ks) auto
  then obtain m where "m \<in> set ks" "\<forall>z \<in> set ks. count_list scores z \<le> count_list scores m"
    using arg_max_nat_lemma[of "\<lambda>y. y \<in> set ks" k0 "count_list scores"
        "Suc (Max (count_list scores ` set ks))"]
    by (metis List.finite_set Max_ge finite_imageI image_eqI le_imp_less_Suc)
  then have "filter ?P ks \<noteq> []"
    unfolding filter_empty_conv by blast
  then have "lastMostFrequent ks scores \<in> set (filter ?P ks)"
    unfolding lastMostFrequent_def by (rule last_in_set)
  then have r: "lastMostFrequent ks scores \<in> set ks" "?P (lastMostFrequent ks scores)"
    unfolding set_filter by blast+
  have "count_list scores t \<le> count_list scores (lastMostFrequent ks scores)" for t
  proof (cases "t \<in> set scores")
    case True
    then show ?thesis using r(2) assms(1) by blast
  next
    case False
    then show ?thesis by (simp add: count_list_0_iff[THEN iffD2])
  qed
  then show ?thesis
    using r(1) assms(1) by blast
qed

lemma averageSatisfaction_Inr:
  assumes "averageSatisfactionByPriorityOf h issues = Inr m"
  shows "distinct (map fst m)"
    and "\<forall>issue \<in> set issues. ratingScore issue \<noteq> None \<longrightarrow> plainKey (priorityKey h issue)"
    and "map_of m p =
      (if priorityScores h p issues = [] then None
       else (case mostCommon (scoreCounts (priorityScores h p issues)) of
               Inl e \<Rightarrow> None | Inr s \<Rightarrow> Some s))"
proof -
  from assms obtain obj where obj: "collectScores h [] issues = Inr obj"
    and m: "modes (ownEntries obj) [] = Inr m"
    by (auto simp: averageSatisfactionByPriorityOf_def satisfactionByPriority_def split: sum.splits)
  have c: "distinct (map fst obj)"
    "\<And>k. map_of obj k =
      (if plainKey k \<and> k \<in> priorityKey h ` set issues then Some (priorityScores h k issues) else None)"
    using collectScores_Inr[OF obj] by simp_all
  show plain: "\<forall>issue \<in> set issues. ratingScore issue \<noteq> None \<longrightarrow> plainKey (priorityKey h issue)"
    using collectScores_Inr_plain[OF obj] by simp
  have keys: "\<forall>k \<in> fst ` set (ownEntries obj). k \<noteq> ''__proto__''"
  proof
    fix k assume "k \<in> fst ` set (ownEntries obj)"
    then have "map_of obj k \<noteq> None"
      by (simp add: map_of_eq_None_iff)
    then have "plainKey k"
      unfolding c(2) by (simp split: if_splits)
    then show "k \<noteq> ''__proto__''"
      by (rule plainKey_not_proto)
  qed
  have r: "distinct (map fst m)"
    "\<And>k. map_of m k =
       (case map_of (ownEntries obj) k of
          None \<Rightarrow> None
        | Some scores \<Rightarrow>
            if scores = [] then None
            else (case mostCommon (scoreCounts scores) of Inl e \<Rightarrow> None | Inr m \<Rightarrow> Some m))"
    using modes_Inr[OF m distinct_ownEntries[OF c(1)] keys] by (simp_all split: option.splits)
  show "distinct (map fst m)"
    by (rule r(1))
  have "map_of m p =
       (case map_of obj p of
          None \<Rightarrow> None
        | Some scores \<Rightarrow>
            if scores = [] then None
            else (case mostCommon (scoreCounts scores) of Inl e \<Rightarrow> None | Inr m \<Rightarrow> Some m))"
    unfolding r(2) map_of_ownEntries[OF c(1)] by (rule refl)
  moreover have "priorityScores h p issues = []" if "\<not> (plainKey p \<and> p \<in> priorityKey h ` set issues)"
    using that plain unfolding priorityScores_empty_iff by auto
  ultimately show "map_of m p =
      (if priorityScores h p issues = [] then None
       else (case mostCommon (scoreCounts (priorityScores h p issues)) of
               Inl e \<Rightarrow> None | Inr s \<Rightarrow> Some s))"
    unfolding c(2) by auto
qed

lemma averageSatisfaction_total:
  assumes "\<forall>issue \<in> set issues. \<forall>s. ratingScore issue = Some s \<longrightarrow>
             plainKey s \<and> plainKey (priorityKey h issue)"
  shows "\<exists>m. averageSatisfactionByPriorityOf h issues = Inr m"
proof -
  have "\<forall>issue \<in> set issues. ratingScore issue \<noteq> None \<longrightarrow> plainKey (priorityKey h issue)"
    using assms by auto
  then obtain obj where obj: "collectScores h [] issues = Inr obj"
    using collectScores_total by blast
  have c: "distinct (map fst obj)"
    "\<And>k. map_of obj k =
      (if plainKey k \<and> k \<in> priorityKey h ` set issues then Some (priorityScores h k issues) else None)"
    using collectScores_Inr[OF obj] by simp_all
  have "\<exists>s. mostCommon (scoreCounts scores) = Inr s"
    if "(p, scores) \<in> set (ownEntries obj)" "scores \<noteq> []" for p scores
  proof -
    have "map_of obj p = Some scores"
      using that(1) c(1) by simp
    then have "scores = priorityScores h p issues"
      unfolding c(2) by (simp split: if_splits)
    then have "plainScores scores"
      using assms by (auto simp: plainScores_def set_priorityScores)
    then show ?thesis
      using mostCommon_plain that(2) by blast
  qed
  then have "\<exists>res. modes (ownEntries obj) [] = Inr res"
    by (intro modes_total) auto
  then show ?thesis
    using obj by (auto simp: averageSatisfactionByPriorityOf_def satisfactionByPriority_def)
qed

text \<open>
  What the handler does for scores that name no property inherited from
  \<open>Object.prototype\<close>: whenever the insights are computed, the keys of
  \<open>averageSatisfactionByPriority\<close> are exactly the lower-cased priority strings that
  have a record with a score (present and not empty), whatever the strings are, and each
  key maps to a most frequent score among the scored records of that priority; a
  priority without a scored record is no key at all.
\<close>

lemma plain_scores_mode:
  assumes "\<forall>issue \<in> set issues. \<forall>s. ratingScore issue = Some s \<longrightarrow> plainKey s"
  shows "((\<forall>issue \<in> set issues. ratingScore issue \<noteq> None \<longrightarrow> plainKey (priorityKey h issue))
            \<longrightarrow> (\<exists>m. averageSatisfactionByPriorityOf h issues = Inr m)) \<and>
         (\<forall>m. averageSatisfactionByPriorityOf h issues = Inr m \<longrightarrow>
            distinct (map fst m) \<and>
            fst ` set m = {priorityKey h issue | issue. issue \<in> set issues \<and> ratingScore issue \<noteq> None} \<and>
            (\<forall>p s. (p, s) \<in> set m \<longrightarrow>
               s \<in> set (priorityScores h p issues) \<and>
               (\<forall>t. count_list (priorityScores h p issues) t \<le> count_list (priorityScores h p issues) s))) \<and>
         (\<forall>r. analyze h (Some issues) = Inr r \<longrightarrow>
            averageSatisfactionByPriorityOf h issues =
              Inr (averageSatisfactionByPriority (additionalInsights r)))"
proof -
  have total: "\<exists>m. averageSatisfactionByPriorityOf h issues = Inr m"
    if "\<forall>issue \<in> set issues. ratingScore issue \<noteq> None \<longrightarrow> plainKey (priorityKey h issue)"
    using assms that by (intro averageSatisfaction_total) auto
  have report: "averageSatisfactionByPriorityOf h issues =
      Inr (averageSatisfactionByPriority (additionalInsights r))"
    if "analyze h (Some issues) = Inr r" for r
    using that by (rule analyze_Inr(9))
  have plain: "plainScores (priorityScores h p issues)" for p
    using assms by (auto simp: plainScores_def set_priorityScores)
  have main: "distinct (map fst m) \<and>
      fst ` set m = {priorityKey h issue | issue. issue \<in> set issues \<and> ratingScore issue \<noteq> None} \<and>
      (\<forall>p s. (p, s) \<in> set m \<longrightarrow>
         s \<in> set (priorityScores h p issues) \<and>
         (\<forall>t. count_list (priorityScores h p issues) t \<le> count_list (priorityScores h p issues) s))"
    if m: "averageSatisfactionByPriorityOf h issues = Inr m" for m
  proof -
    note a = averageSatisfaction_Inr[OF m]
    have mode: "map_of m p = (if priorityScores h p issues = [] then None
         else Some (lastMostFrequent (Object_keys (scoreCounts (priorityScores h p issues)))
                      (priorityScores h p issues)))" for p
    proof (cases "priorityScores h p issues = []")
      case True
      then show ?thesis using a(3)[of p] by simp
    next
      case False
      from mostCommon_plain[OF plain False] show ?thesis
        using a(3)[of p] False by simp
    qed
    have "fst ` set m = {p. map_of m p \<noteq> None}"
      by (auto simp: map_of_eq_None_iff)
    also have "\<dots> = {p. priorityScores h p issues \<noteq> []}"
      unfolding mode by auto
    also have "\<dots> = {priorityKey h issue | issue. issue \<in> set issues \<and> ratingScore issue \<noteq> None}"
      unfolding priorityScores_empty_iff by auto
    finally have dom: "fst ` set m =
        {priorityKey h issue | issue. issue \<in> set issues \<and> ratingScore issue \<noteq> None}" .
    have best: "s \<in> set (priorityScores h p issues) \<and>
          (\<forall>t. count_list (priorityScores h p issues) t \<le> count_list (priorityScores h p issues) s)"
      if "(p, s) \<in> set m" for p s
    proof -
      have ps: "map_of m p = Some s"
        using that a(1) by simp
      then have ne: "priorityScores h p issues \<noteq> []"
        and s: "s = lastMostFrequent (Object_keys (scoreCounts (priorityScores h p issues)))
                      (priorityScores h p issues)"
        unfolding mode by (simp_all split: if_splits)
      have "set (Object_keys (scoreCounts (priorityScores h p issues))) = set (priorityScores h p issues)"
        using scoreCounts_plain[OF plain] by (simp add: Object_keys_enumerationOrder)
      from lastMostFrequent_max[OF this ne] show ?thesis
        unfolding s by blast
    qed
    show ?thesis
      using a(1) dom best by blast
  qed
  show ?thesis
    using total report main by blast
qed

lemmas sample_defs = sampleHost_def ticket_def lowerChar_def
lemmas insight_defs = averageSatisfactionByPriorityOf_def satisfactionByPriority_def collectScore_def
  ratingScore_def inheritedText_def ownEntries_def isArrayIndex_def isDigit_def indexValue_def
  scoreCounts_def increment_def assign_def mostCommon_def

lemma analyze_Inr_intro:
  assumes "issues \<noteq> []" "averageSatisfactionByPriorityOf h issues = Inr m"
  shows "\<exists>r. analyze h (Some issues) = Inr r \<and> averageSatisfactionByPriority (additionalInsights r) = m"
  using assms by (simp add: analyze_def)

text \<open>
  C7. Each key of \<open>averageSatisfactionByPriority\<close> should map to the most frequent
  score among the scored records of that priority. For three high-priority tickets
  with the scores \<open>good\<close>, \<open>good\<close> and \<open>toString\<close> the report has
  \<open>high\<close> mapped to \<open>toString\<close>, although \<open>good\<close> occurs twice and
  \<open>toString\<close> once: the counting object is a plain object, so the first count of
  \<open>toString\<close> is the text of the inherited function with \<open>1\<close> appended, no count
  compares greater than that text, and the reduction ends on \<open>toString\<close>.
\<close>

theorem mode_by_priority_inherited_name:
  "(\<exists>r. analyze sampleHost (Some inheritedNameScores) = Inr r \<and>
        averageSatisfactionByPriority (additionalInsights r) = [(''high'', ''toString'')]) \<and>
   priorityScores sampleHost ''high'' inheritedNameScores = [''good'', ''good'', ''toString''] \<and>
   count_list [''good'', ''good'', ''toString''] ''toString'' < count_list [''good'', ''good'', ''toString''] ''good''"
proof -
  have "averageSatisfactionByPriorityOf sampleHost inheritedNameScores = Inr [(''high'', ''toString'')]"
    by (simp add: insight_defs sample_defs inheritedNameScores_def)
  moreover have "inheritedNameScores \<noteq> []"
    by (simp add: inheritedNameScores_def)
  ultimately have "\<exists>r. analyze sampleHost (Some inheritedNameScores) = Inr r \<and>
        averageSatisfactionByPriority (additionalInsights r) = [(''high'', ''toString'')]"
    by (intro analyze_Inr_intro)
  moreover have "priorityScores sampleHost ''high'' inheritedNameScores = [''good'', ''good'', ''toString'']"
    by (simp add: priorityScores_def priorityKey_def map_filter_simps ratingScore_def sample_defs
        inheritedNameScores_def)
  ultimately show ?thesis
    by simp
qed

lemma plain_sample:
  "\<forall>issue \<in> set sampleIssues. \<forall>s. ratingScore issue = Some s \<longrightarrow> plainKey s"
  by (simp add: sampleIssues_def ticket_def ratingScore_def plainKey_def inheritedText_def)

lemma plain_scores_mode_sample:
  "plainScores (List.map_filter ratingScore sampleIssues) \<and>
   averageSatisfactionByPriorityOf sampleHost sampleIssues =
     Inr [(''high'', ''bad''), (''normal'', ''excellent'')] \<and>
   fst ` set [(''high'', ''bad''), (''normal'', ''excellent'')] =
     {priorityKey sampleHost issue | issue. issue \<in> set sampleIssues \<and> ratingScore issue \<noteq> None} \<and>
   ''bad'' \<in> set (priorityScores sampleHost ''high'' sampleIssues) \<and>
   (\<forall>t. count_list (priorityScores sampleHost ''high'' sampleIssues) t
        \<le> count_list (priorityScores sampleHost ''high'' sampleIssues) ''bad'')"
proof -
  note m = plain_scores_mode [OF plain_sample, of sampleHost, THEN conjunct2, THEN conjunct1,
      rule_format, OF averageSatisfaction_sample]
  have "plainScores (List.map_filter ratingScore sampleIssues)"
    by (simp add: plainScores_def map_filter_simps sampleIssues_def ticket_def ratingScore_def
        plainKey_def inheritedText_def)
  moreover have "(''high'', ''bad'') \<in> set [(''high'', ''bad''), (''normal'', ''excellent'')]"
    by simp
  ultimately show ?thesis
    using m averageSatisfaction_sample by blast
qed

section \<open>Ties between most frequent scores\<close>

text \<open>
  C10 (as amended). When no score of a priority names an inherited property, the selected
  mode is the score that comes last, among the scores of greatest frequency, in the order
  of \<open>Object.keys(scoreCounts)\<close>: the scores that are array indices in ascending
  numeric order first, then the others in the order in which they were first encountered.
  When no score is an array index this is the order of first encounter.
\<close>

theorem mode_tie_break:
  "(\<forall>scores. plainScores scores \<and> scores \<noteq> [] \<longrightarrow>
      mostCommon (scoreCounts scores) =
        Inr (lastMostFrequent (enumerationOrder (firstSeen scores)) scores) \<and>
      Object_keys (scoreCounts scores) = enumerationOrder (firstSeen scores)) \<and>
   (\<forall>scores. (\<forall>s \<in> set scores. \<not> isArrayIndex s) \<longrightarrow>
      enumerationOrder (firstSeen scores) = firstSeen scores) \<and>
   (\<forall>h issues m p s.
      (\<forall>issue \<in> set issues. \<forall>s. ratingScore issue = Some s \<longrightarrow> plainKey s) \<and>
      averageSatisfactionByPriorityOf h issues = Inr m \<and> (p, s) \<in> set m \<longrightarrow>
      s = lastMostFrequent (enumerationOrder (firstSeen (priorityScores h p issues)))
            (priorityScores h p issues))"
proof -
  have keys: "Object_keys (scoreCounts scores) = enumerationOrder (firstSeen scores)"
    if "plainScores scores" for scores
    using scoreCounts_plain[OF that] by (simp add: Object_keys_enumerationOrder)
  have one: "mostCommon (scoreCounts scores) =
        Inr (lastMostFrequent (enumerationOrder (firstSeen scores)) scores)"
    if "plainScores scores" "scores \<noteq> []" for scores
    using mostCommon_plain[OF that] keys[OF that(1)] by simp
  have two: "enumerationOrder (firstSeen scores) = firstSeen scores"
    if "\<forall>s \<in> set scores. \<not> isArrayIndex s" for scores :: "string list"
    using that by (intro enumerationOrder_no_index) simp
  have three: "s = lastMostFrequent (enumerationOrder (firstSeen (priorityScores h p issues)))
            (priorityScores h p issues)"
    if plain: "\<forall>issue \<in> set issues. \<forall>s. ratingScore issue = Some s \<longrightarrow> plainKey s"
      and m: "averageSatisfactionByPriorityOf h issues = Inr m" and ps: "(p, s) \<in> set m"
    for h issues m p s
  proof -
    note a = averageSatisfaction_Inr[OF m]
    have "map_of m p = Some s"
      using ps a(1) by simp
    then have ne: "priorityScores h p issues \<noteq> []"
      and s: "mostCommon (scoreCounts (priorityScores h p issues)) = Inr s"
      unfolding a(3) by (simp_all split: if_splits sum.splits)
    have "plainScores (priorityScores h p issues)"
      using plain by (auto simp: plainScores_def set_priorityScores)
    from one[OF this ne] s show ?thesis
      by simp
  qed
  show ?thesis
    using keys one two three by blast
qed

text \<open>
  C10 as stated fails for scores that are array indices: with the scores \<open>2\<close> then
  \<open>1\<close>, once each, \<open>Object.keys\<close> gives \<open>1\<close> before \<open>2\<close> and the reduction
  ends on \<open>2\<close>, while the last tied score in the order of first encounter is \<open>1\<close>.
\<close>

theorem mode_tie_break_counterexample:
  "(\<exists>r. analyze sampleHost (Some indexScores) = Inr r \<and>
        averageSatisfactionByPriority (additionalInsights r) = [(''high'', ''2'')]) \<and>
   priorityScores sampleHost ''high'' indexScores = [''2'', ''1''] \<and>
   count_list [''2'', ''1''] ''2'' = count_list [''2'', ''1''] ''1'' \<and>
   firstSeen [''2'', ''1''] = [''2'', ''1''] \<and>
   lastMostFrequent (firstSeen [''2'', ''1'']) [''2'', ''1''] = ''1''"
proof -
  have "averageSatisfactionByPriorityOf sampleHost indexScores = Inr [(''high'', ''2'')]"
    by (simp add: insight_defs sample_defs indexScores_def)
  moreover have "indexScores \<noteq> []"
    by (simp add: indexScores_def)
  ultimately have "\<exists>r. analyze sampleHost (Some indexScores) = Inr r \<and>
        averageSatisfactionByPriority (additionalInsights r) = [(''high'', ''2'')]"
    by (intro analyze_Inr_intro)
  moreover have "priorityScores sampleHost ''high'' indexScores = [''2'', ''1'']"
    by (simp add: priorityScores_def priorityKey_def map_filter_simps ratingScore_def sample_defs
        indexScores_def)
  moreover have "lastMostFrequent (firstSeen [''2'', ''1'']) [''2'', ''1''] = ''1''"
    by (simp add: lastMostFrequent_def firstSeen_def)
  ultimately show ?thesis
    by (simp add: firstSeen_def)
qed

theorem mode_tie_break_witness:
  "plainScores (priorityScores sampleHost ''high'' sampleIssues) \<and>
   priorityScores sampleHost ''high'' sampleIssues = [''good'', ''bad''] \<and>
   \<not> isArrayIndex ''good'' \<and> \<not> isArrayIndex ''bad'' \<and>
   mostCommon (scoreCounts [''good'', ''bad'']) = Inr ''bad'' \<and>
   Object_keys (scoreCounts [''good'', ''bad'']) = [''good'', ''bad''] \<and>
   (''high'', ''bad'') \<in> set [(''high'', ''bad''), (''normal'', ''excellent'')] \<and>
   ''bad'' = lastMostFrequent (enumerationOrder (firstSeen (priorityScores sampleHost ''high'' sampleIssues)))
            (priorityScores sampleHost ''high'' sampleIssues)"
proof -
  have ps: "priorityScores sampleHost ''high'' sampleIssues = [''good'', ''bad'']"
    by (simp add: priorityScores_def priorityKey_def map_filter_simps ratingScore_def sample_defs
        sampleIssues_def)
  have plain: "plainScores [''good'', ''bad'']"
    by (simp add: plainScores_def plainKey_def inheritedText_def)
  have noidx: "\<forall>s \<in> set [''good'', ''bad'']. \<not> isArrayIndex s"
    by (simp add: isArrayIndex_def isDigit_def)
  have fs: "firstSeen [''good'', ''bad''] = [''good'', ''bad'']"
    by (simp add: firstSeen_def)
  have lmf: "lastMostFrequent [''good'', ''bad''] [''good'', ''bad''] = ''bad''"
    by (simp add: lastMostFrequent_def)
  note t = mode_tie_break
  have one: "mostCommon (scoreCounts [''good'', ''bad'']) = Inr ''bad''"
    "Object_keys (scoreCounts [''good'', ''bad'']) = [''good'', ''bad'']"
    using t[THEN conjunct1, rule_format, of "[''good'', ''bad'']"]
      t[THEN conjunct2, THEN conjunct1, THEN spec, THEN mp, OF noidx] plain
    by (simp_all add: fs lmf)
  have mem: "(''high'', ''bad'') \<in> set [(''high'', ''bad''), (''normal'', ''excellent'')]"
    by simp
  have three: "''bad'' = lastMostFrequent (enumerationOrder (firstSeen (priorityScores sampleHost ''high'' sampleIssues)))
            (priorityScores sampleHost ''high'' sampleIssues)"
    by (rule t[THEN conjunct2, THEN conjunct2, THEN spec, THEN spec, THEN spec, THEN spec,
          THEN spec, THEN mp, OF conjI[OF plain_sample conjI[OF averageSatisfaction_sample mem]]])
  have "\<not> isArrayIndex ''good''" "\<not> isArrayIndex ''bad''"
    using noidx by simp_all
  moreover have "plainScores (priorityScores sampleHost ''high'' sampleIssues)"
    unfolding ps by (rule plain)
  ultimately show ?thesis
    using one three ps mem by blast
qed

section \<open>The empty dataset\<close>

lemma collectScores_Inl: "collectScores h obj issues = Inl e \<Longrightarrow> e = TypeError"
  by (cases e) (induction issues arbitrary: obj,
      auto simp: collectScore_def Let_def split: sum.splits option.splits)

lemma modes_Inl: "modes entries result = Inl e \<Longrightarrow> e = TypeError"
  by (induction entries result rule: modes.induct)
     (auto simp: mostCommon_def split: sum.splits if_splits list.splits)

lemma averageSatisfaction_Inl: "averageSatisfactionByPriorityOf h issues = Inl e \<Longrightarrow> e = TypeError"
  by (auto simp: averageSatisfactionByPriorityOf_def satisfactionByPriority_def
      dest: collectScores_Inl modes_Inl split: sum.splits)

text \<open>
  C2. The analysis fails with \<open>EmptyDataset\<close>, answered with status 404 and an error
  body in place of a report, exactly when \<open>data.results\<close> is missing or has no
  records. On every other input the sections are computed over the whole sequence, and
  the report that is sent has \<open>totalIssues\<close> equal to its length; a report is sent
  (status 200) whenever no score and no priority of a scored record names a property
  inherited from \<open>Object.prototype\<close>.
\<close>

theorem empty_dataset:
  "(analyze h results = Inl EmptyDataset \<longleftrightarrow> results = None \<or> results = Some []) \<and>
   (results = None \<or> results = Some [] \<longrightarrow>
      GET h (Resolved results) = \<lparr>statusCode = 404, body = ErrorJson ''No data found''\<rparr>) \<and>
   (\<forall>issues r. results = Some issues \<and> analyze h results = Inr r \<longrightarrow>
      issues \<noteq> [] \<and>
      totalIssues (additionalInsights r) = length issues \<and>
      statusBreakdown r = statusBreakdownOf h issues \<and>
      priorityBreakdown r = priorityBreakdownOf h issues \<and>
      resolutionTimeliness r = resolutionTimelinessOf h issues \<and>
      highPriorityAnalysis r = highPriorityAnalysisOf h issues \<and>
      longestToSolveHighPriority r = longestToSolveHighPriorityOf h issues \<and>
      issuesByType (additionalInsights r) = issuesByTypeOf h issues \<and>
      GET h (Resolved results) = \<lparr>statusCode = 200, body = ReportJson r\<rparr>) \<and>
   (\<forall>issues. results = Some issues \<and> issues \<noteq> [] \<and>
      (\<forall>issue \<in> set issues. \<forall>s. ratingScore issue = Some s \<longrightarrow>
         plainKey s \<and> plainKey (priorityKey h issue)) \<longrightarrow>
      (\<exists>r. analyze h results = Inr r))"
proof -
  have empty: "analyze h results = Inl EmptyDataset \<longleftrightarrow> results = None \<or> results = Some []"
  proof (cases results)
    case None
    then show ?thesis by (simp add: analyze_def)
  next
    case (Some issues)
    have "averageSatisfactionByPriorityOf h issues \<noteq> Inl EmptyDataset"
      using averageSatisfaction_Inl by fastforce
    then show ?thesis
      using Some by (auto simp: analyze_def split: sum.splits)
  qed
  then have notfound: "GET h (Resolved results) = \<lparr>statusCode = 404, body = ErrorJson ''No data found''\<rparr>"
    if "results = None \<or> results = Some []"
    using that by (simp add: GET_def)
  have report: "issues \<noteq> [] \<and>
      totalIssues (additionalInsights r) = length issues \<and>
      statusBreakdown r = statusBreakdownOf h issues \<and>
      priorityBreakdown r = priorityBreakdownOf h issues \<and>
      resolutionTimeliness r = resolutionTimelinessOf h issues \<and>
      highPriorityAnalysis r = highPriorityAnalysisOf h issues \<and>
      longestToSolveHighPriority r = longestToSolveHighPriorityOf h issues \<and>
      issuesByType (additionalInsights r) = issuesByTypeOf h issues \<and>
      GET h (Resolved results) = \<lparr>statusCode = 200, body = ReportJson r\<rparr>"
    if "results = Some issues" "analyze h results = Inr r" for issues r
  proof -
    have a: "analyze h (Some issues) = Inr r"
      using that by simp
    show ?thesis
      using analyze_Inr[OF a] that by (simp add: GET_def)
  qed
  have total: "\<exists>r. analyze h results = Inr r"
    if res: "results = Some issues" and ne: "issues \<noteq> []"
      and plain: "\<forall>issue \<in> set issues. \<forall>s. ratingScore issue = Some s \<longrightarrow>
         plainKey s \<and> plainKey (priorityKey h issue)" for issues
  proof -
    obtain m where "averageSatisfactionByPriorityOf h issues = Inr m"
      using averageSatisfaction_total[OF plain] by blast
    then show ?thesis
      using res ne by (simp add: analyze_def)
  qed
  show ?thesis
    using empty notfound report total by blast
qed

lemma plain_input_sample:
  "\<forall>issue \<in> set sampleIssues. \<forall>s. ratingScore issue = Some s \<longrightarrow>
     plainKey s \<and> plainKey (priorityKey sampleHost issue)"
  by (simp add: sampleIssues_def ticket_def ratingScore_def plainKey_def priorityKey_def
      inheritedText_def sampleHost_def lowerChar_def)

theorem empty_dataset_witness:
  "analyze sampleHost None = Inl EmptyDataset \<and>
   analyze sampleHost (Some []) = Inl EmptyDataset \<and>
   GET sampleHost (Resolved (Some [])) = \<lparr>statusCode = 404, body = ErrorJson ''No data found''\<rparr> \<and>
   (\<exists>r. analyze sampleHost (Some sampleIssues) = Inr r \<and>
        totalIssues (additionalInsights r) = 4 \<and>
        GET sampleHost (Resolved (Some sampleIssues)) = \<lparr>statusCode = 200, body = ReportJson r\<rparr>)"
proof -
  note e = empty_dataset
  have ne: "sampleIssues \<noteq> []" and len: "length sampleIssues = 4"
    by (simp_all add: sampleIssues_def)
  obtain r where r: "analyze sampleHost (Some sampleIssues) = Inr r"
    using e[of sampleHost "Some sampleIssues", THEN conjunct2, THEN conjunct2, THEN conjunct2,
        THEN spec, THEN mp, OF conjI[OF refl conjI[OF ne plain_input_sample]]] by blast
  have "totalIssues (additionalInsights r) = 4 \<and>
        GET sampleHost (Resolved (Some sampleIssues)) = \<lparr>statusCode = 200, body = ReportJson r\<rparr>"
    using e[of sampleHost "Some sampleIssues", THEN conjunct2, THEN conjunct2, THEN conjunct1,
        THEN spec, THEN spec, THEN mp, OF conjI[OF refl r]] len by simp
  moreover have "analyze sampleHost None = Inl EmptyDataset"
    using e[of sampleHost None] by blast
  moreover have "analyze sampleHost (Some []) = Inl EmptyDataset"
    "GET sampleHost (Resolved (Some [])) = \<lparr>statusCode = 404, body = ErrorJson ''No data found''\<rparr>"
    using e[of sampleHost "Some []"] by blast+
  ultimately show ?thesis
    using r by blast
qed

section \<open>The instant of the call\<close>

lemma clock_countStatus: "countStatus (h\<lparr>clock := t\<rparr>) = countStatus h"
  by (intro ext) (simp add: countStatus_def)

lemma clock_countPriority: "countPriority (h\<lparr>clock := t\<rparr>) = countPriority h"
  by (intro ext) (simp add: countPriority_def)

lemma clock_statusBreakdownOf: "statusBreakdownOf (h\<lparr>clock := t\<rparr>) issues = statusBreakdownOf h issues"
  by (simp add: statusBreakdownOf_def statusCounts_def clock_countStatus)

lemma clock_priorityBreakdownOf:
  "priorityBreakdownOf (h\<lparr>clock := t\<rparr>) issues = priorityBreakdownOf h issues"
  by (simp add: priorityBreakdownOf_def priorityCounts_def clock_countPriority)

lemma clock_resolved:
  "resolvedOnTime (h\<lparr>clock := t\<rparr>) = resolvedOnTime h"
  "resolvedOverdue (h\<lparr>clock := t\<rparr>) = resolvedOverdue h"
  by (intro ext, simp add: resolvedOnTime_def resolvedOverdue_def resolved_def)+

lemma clock_highPriorityClosed: "highPriorityClosed (h\<lparr>clock := t\<rparr>) issues = highPriorityClosed h issues"
  by (simp add: highPriorityClosed_def)

lemma clock_addTimeToClose: "addTimeToClose (h\<lparr>clock := t\<rparr>) = addTimeToClose h"
  by (intro ext) (simp add: addTimeToClose_def timeDiffMs_def)

lemma clock_highPriorityAnalysisOf:
  "highPriorityAnalysisOf (h\<lparr>clock := t\<rparr>) issues = highPriorityAnalysisOf h issues"
  by (simp add: highPriorityAnalysisOf_def averageTimeToCloseMs_def totalTimeToClose_def
      clock_highPriorityClosed clock_addTimeToClose)

lemma clock_longestToSolve:
  "longestToSolveHighPriorityOf (h\<lparr>clock := t\<rparr>) issues = longestToSolveHighPriorityOf h issues"
  by (simp add: longestToSolveHighPriorityOf_def longestEntry_def timeToCloseArray_def
      clock_highPriorityClosed clock_addTimeToClose)

lemma clock_issuesByTypeOf: "issuesByTypeOf (h\<lparr>clock := t\<rparr>) issues = issuesByTypeOf h issues"
  by (simp add: issuesByTypeOf_def)

lemma clock_collectScores: "collectScores (h\<lparr>clock := t\<rparr>) obj issues = collectScores h obj issues"
  by (induction issues arbitrary: obj) (simp_all add: collectScore_def split: sum.splits)

lemma clock_averageSatisfaction:
  "averageSatisfactionByPriorityOf (h\<lparr>clock := t\<rparr>) issues = averageSatisfactionByPriorityOf h issues"
  by (simp add: averageSatisfactionByPriorityOf_def satisfactionByPriority_def clock_collectScores)

lemma clock_statusCounts: "statusCounts (h\<lparr>clock := t\<rparr>) issues = statusCounts h issues"
  by (simp add: statusCounts_def clock_countStatus)

lemma resolutionTimelinessOf_blank:
  "(resolutionTimelinessOf h issues)\<lparr>currentlyOverdue := 0, currentlyOverduePercent := Num 0\<rparr> =
     (let n = length (filter (resolvedOnTime h) issues) + length (filter (resolvedOverdue h) issues) in
      \<lparr>onTime = length (filter (resolvedOnTime h) issues),
       overdue = length (filter (resolvedOverdue h) issues),
       currentlyOverdue = 0,
       onTimePercent = (if 0 < n then percent (length (filter (resolvedOnTime h) issues)) n else Num 0),
       overduePercent = (if 0 < n then percent (length (filter (resolvedOverdue h) issues)) n else Num 0),
       currentlyOverduePercent = Num 0\<rparr>)"
  by (simp add: resolutionTimelinessOf_def timelinessCounts_filter Let_def)

lemma clock_resolutionTimelinessOf:
  "(resolutionTimelinessOf (h\<lparr>clock := t\<rparr>) issues)\<lparr>currentlyOverdue := 0, currentlyOverduePercent := Num 0\<rparr> =
   (resolutionTimelinessOf h issues)\<lparr>currentlyOverdue := 0, currentlyOverduePercent := Num 0\<rparr>"
  unfolding resolutionTimelinessOf_blank clock_resolved by (rule refl)

lemma clock_analyze:
  "map_sum id withoutCurrentlyOverdue (analyze (h\<lparr>clock := t\<rparr>) results) =
   map_sum id withoutCurrentlyOverdue (analyze h results)"
proof (cases results)
  case None
  then show ?thesis by (simp add: analyze_def)
next
  case (Some issues)
  show ?thesis
    unfolding Some analyze_def option.case clock_averageSatisfaction clock_statusBreakdownOf
      clock_priorityBreakdownOf clock_highPriorityAnalysisOf clock_longestToSolve
      clock_issuesByTypeOf clock_statusCounts
    using clock_resolutionTimelinessOf[where h = h and t = t and issues = issues]
    by (simp add: withoutCurrentlyOverdue_def split: sum.splits)
qed

text \<open>
  C8 (as amended). The report is a function of the input sequence and of the instant
  \<open>now\<close> that the handler reads from the clock when it is called: invocations on the
  same input at any two instants give the same outcome and reports that agree in every
  field except \<open>currentlyOverdue\<close> and \<open>currentlyOverduePercent\<close>.
\<close>

theorem report_depends_on_clock:
  "map_sum id withoutCurrentlyOverdue (analyze (h\<lparr>clock := t1\<rparr>) results) =
   map_sum id withoutCurrentlyOverdue (analyze (h\<lparr>clock := t2\<rparr>) results)"
  by (simp only: clock_analyze)

lemma currentlyOverdue_filter:
  "currentlyOverdue (resolutionTimelinessOf h issues) = length (filter (nowOverdue h) issues)"
  by (simp add: resolutionTimelinessOf_def timelinessCounts_filter Let_def)

text \<open>
  C8 as stated fails: the same single open ticket, due at 12:00, is not overdue for a
  call at 10:00 and is overdue for a call at 18:00.
\<close>

theorem report_depends_on_clock_counterexample:
  "analyze (sampleHost\<lparr>clock := 1733392800000\<rparr>) (Some dueAtNoon)
     \<noteq> analyze (sampleHost\<lparr>clock := 1733421600000\<rparr>) (Some dueAtNoon)"
proof
  let ?early = "sampleHost\<lparr>clock := 1733392800000\<rparr>"
  let ?late = "sampleHost\<lparr>clock := 1733421600000\<rparr>"
  assume eq: "analyze ?early (Some dueAtNoon) = analyze ?late (Some dueAtNoon)"
  have plain: "\<forall>issue \<in> set dueAtNoon. \<forall>s. ratingScore issue = Some s \<longrightarrow>
      plainKey s \<and> plainKey (priorityKey h issue)" for h
    by (simp add: dueAtNoon_def ticket_def ratingScore_def)
  obtain m where "averageSatisfactionByPriorityOf ?early dueAtNoon = Inr m"
    using averageSatisfaction_total[OF plain] by blast
  then obtain r where r: "analyze ?early (Some dueAtNoon) = Inr r"
    by (simp add: analyze_def dueAtNoon_def)
  have "length (filter (nowOverdue ?early) dueAtNoon) = 0"
    by (simp add: nowOverdue_def unresolved_def date_gt_def sample_defs dueAtNoon_def)
  moreover have "length (filter (nowOverdue ?late) dueAtNoon) = 1"
    by (simp add: nowOverdue_def unresolved_def date_gt_def sample_defs dueAtNoon_def)
  moreover have "currentlyOverdue (resolutionTimeliness r) = length (filter (nowOverdue ?early) dueAtNoon)"
    using analyze_Inr(4)[OF r] by (simp add: currentlyOverdue_filter)
  moreover have "currentlyOverdue (resolutionTimeliness r) = length (filter (nowOverdue ?late) dueAtNoon)"
    using analyze_Inr(4)[OF r[unfolded eq]] by (simp add: currentlyOverdue_filter)
  ultimately show False
    by simp
qed

section \<open>The timeliness percentages\<close>

lemma resolutionTimelinessOf_fields:
  "onTime (resolutionTimelinessOf h issues) = length (filter (resolvedOnTime h) issues)"
  "overdue (resolutionTimelinessOf h issues) = length (filter (resolvedOverdue h) issues)"
  "onTimePercent (resolutionTimelinessOf h issues) =
     (let r = onTime (resolutionTimelinessOf h issues) + overdue (resolutionTimelinessOf h issues)
      in if 0 < r then percent (onTime (resolutionTimelinessOf h issues)) r else Num 0)"
  "overduePercent (resolutionTimelinessOf h issues) =
     (let r = onTime (resolutionTimelinessOf h issues) + overdue (resolutionTimelinessOf h issues)
      in if 0 < r then percent (overdue (resolutionTimelinessOf h issues)) r else Num 0)"
  "currentlyOverduePercent (resolutionTimelinessOf h issues) =
     (if 0 < length issues
      then percent (currentlyOverdue (resolutionTimelinessOf h issues)) (length issues) else Num 0)"
  by (simp_all add: resolutionTimelinessOf_def timelinessCounts_filter Let_def)

text \<open>
  C4 (as amended). With \<open>totalResolved = onTime + overdue\<close>: when it is 0, both
  \<open>onTimePercent\<close> and \<open>overduePercent\<close> are 0; otherwise each is
  \<open>(count / totalResolved) * 100\<close> computed in binary64, both are finite numbers, and
  their sum, exact or as JavaScript adds them, is within \<open>1e-13\<close> of 100, and is
  exactly 100 when one of the two counts is 0. \<open>currentlyOverduePercent\<close> is
  \<open>(currentlyOverdue / totalIssues) * 100\<close>.
\<close>

theorem timeliness_percentages:
  "(onTime (resolutionTimelinessOf h issues) + overdue (resolutionTimelinessOf h issues) = 0 \<longrightarrow>
      onTimePercent (resolutionTimelinessOf h issues) = Num 0 \<and>
      overduePercent (resolutionTimelinessOf h issues) = Num 0) \<and>
   (0 < onTime (resolutionTimelinessOf h issues) + overdue (resolutionTimelinessOf h issues) \<longrightarrow>
      onTimePercent (resolutionTimelinessOf h issues) =
        percent (onTime (resolutionTimelinessOf h issues))
          (onTime (resolutionTimelinessOf h issues) + overdue (resolutionTimelinessOf h issues)) \<and>
      overduePercent (resolutionTimelinessOf h issues) =
        percent (overdue (resolutionTimelinessOf h issues))
          (onTime (resolutionTimelinessOf h issues) + overdue (resolutionTimelinessOf h issues)) \<and>
      (\<exists>p q s.
         onTimePercent (resolutionTimelinessOf h issues) = Num p \<and>
         overduePercent (resolutionTimelinessOf h issues) = Num q \<and>
         js_add (onTimePercent (resolutionTimelinessOf h issues))
                (overduePercent (resolutionTimelinessOf h issues)) = Num s \<and>
         \<bar>p + q - 100\<bar> \<le> 1 / 10 ^ 13 \<and> \<bar>s - 100\<bar> \<le> 1 / 10 ^ 13) \<and>
      (onTime (resolutionTimelinessOf h issues) = 0 \<or> overdue (resolutionTimelinessOf h issues) = 0 \<longrightarrow>
         js_add (onTimePercent (resolutionTimelinessOf h issues))
                (overduePercent (resolutionTimelinessOf h issues)) = Num 100)) \<and>
   (issues \<noteq> [] \<longrightarrow>
      currentlyOverduePercent (resolutionTimelinessOf h issues) =
        percent (currentlyOverdue (resolutionTimelinessOf h issues)) (length issues)) \<and>
   (\<forall>r. analyze h (Some issues) = Inr r \<longrightarrow>
      resolutionTimeliness r = resolutionTimelinessOf h issues)"
proof -
  define rt where "rt = resolutionTimelinessOf h issues"
  define a where "a = onTime rt"
  define b where "b = overdue rt"
  have pc: "onTimePercent rt = (if 0 < a + b then percent a (a + b) else Num 0)"
    "overduePercent rt = (if 0 < a + b then percent b (a + b) else Num 0)"
    "currentlyOverduePercent rt =
       (if 0 < length issues then percent (currentlyOverdue rt) (length issues) else Num 0)"
    unfolding rt_def a_def b_def using resolutionTimelinessOf_fields(3,4,5)[of h issues]
    by (simp_all add: Let_def)
  have zero: "onTimePercent rt = Num 0 \<and> overduePercent rt = Num 0" if "a + b = 0"
    using that pc by simp
  have pos: "onTimePercent rt = percent a (a + b) \<and> overduePercent rt = percent b (a + b) \<and>
      (\<exists>p q s. onTimePercent rt = Num p \<and> overduePercent rt = Num q \<and>
         js_add (onTimePercent rt) (overduePercent rt) = Num s \<and>
         \<bar>p + q - 100\<bar> \<le> 1 / 10 ^ 13 \<and> \<bar>s - 100\<bar> \<le> 1 / 10 ^ 13) \<and>
      (a = 0 \<or> b = 0 \<longrightarrow> js_add (onTimePercent rt) (overduePercent rt) = Num 100)"
    if ab: "0 < a + b"
  proof -
    have eq: "onTimePercent rt = percent a (a + b)" "overduePercent rt = percent b (a + b)"
      using ab pc by simp_all
    have exact: "js_add (percent a (a + b)) (percent b (a + b)) = Num 100" if "a = 0 \<or> b = 0"
    proof -
      have "js_add (Num 100) (Num 0) = Num 100" "js_add (Num 0) (Num 100) = Num 100"
        using fl_exact_int[of 100] by simp_all
      then show ?thesis
        using that ab percent_zero[of "a + b"] percent_all[of "a + b"] by auto
    qed
    show ?thesis
      unfolding eq using percent_sum[OF ab] exact by blast
  qed
  have cur: "currentlyOverduePercent rt = percent (currentlyOverdue rt) (length issues)"
    if "issues \<noteq> []"
    using that pc(3) by simp
  have report: "resolutionTimeliness r = rt" if "analyze h (Some issues) = Inr r" for r
    unfolding rt_def using that by (rule analyze_Inr(4))
  show ?thesis
    using zero pos cur report unfolding rt_def[symmetric] a_def[symmetric] b_def[symmetric]
    by blast
qed

lemma timeliness_oneOfThree:
  "filter (resolvedOnTime sampleHost) oneOfThreeOnTime = [oneOfThreeOnTime ! 0]"
  "filter (resolvedOverdue sampleHost) oneOfThreeOnTime = [oneOfThreeOnTime ! 1, oneOfThreeOnTime ! 2]"
  by (simp_all add: resolvedOnTime_def resolvedOverdue_def resolved_def date_le_def
      sample_defs oneOfThreeOnTime_def)

lemma percent_1_3: "percent 1 3 = Num (2345624805922133 / 70368744177664)"
  by (simp add: percent_def js_nat_def fl_eval)

lemma percent_2_3: "percent 2 3 = Num (2345624805922133 / 35184372088832)"
  by (simp add: percent_def js_nat_def fl_eval)

lemma sum_1_2: "js_add (percent 1 3) (percent 2 3) = Num (7036874417766399 / 70368744177664)"
  unfolding percent_1_3 percent_2_3 by (simp add: fl_eval)

text \<open>
  C4 as stated fails: with one resolution on time and two overdue the percentages are
  the doubles 33.33333333333333 and 66.66666666666666, and their sum is
  99.99999999999999, not 100.
\<close>

theorem timeliness_percentages_counterexample:
  "\<exists>r. analyze sampleHost (Some oneOfThreeOnTime) = Inr r \<and>
       onTime (resolutionTimeliness r) = 1 \<and> overdue (resolutionTimeliness r) = 2 \<and>
       js_add (onTimePercent (resolutionTimeliness r)) (overduePercent (resolutionTimeliness r))
         = Num (7036874417766399 / 70368744177664) \<and>
       js_add (onTimePercent (resolutionTimeliness r)) (overduePercent (resolutionTimeliness r))
         \<noteq> Num 100"
proof -
  have plain: "\<forall>issue \<in> set oneOfThreeOnTime. \<forall>s. ratingScore issue = Some s \<longrightarrow>
      plainKey s \<and> plainKey (priorityKey sampleHost issue)"
    by (simp add: oneOfThreeOnTime_def ticket_def ratingScore_def)
  obtain m where "averageSatisfactionByPriorityOf sampleHost oneOfThreeOnTime = Inr m"
    using averageSatisfaction_total[OF plain] by blast
  then obtain r where r: "analyze sampleHost (Some oneOfThreeOnTime) = Inr r"
    by (simp add: analyze_def oneOfThreeOnTime_def)
  have rt: "resolutionTimeliness r = resolutionTimelinessOf sampleHost oneOfThreeOnTime"
    using r by (rule analyze_Inr(4))
  have counts: "onTime (resolutionTimeliness r) = 1" "overdue (resolutionTimeliness r) = 2"
    unfolding rt resolutionTimelinessOf_fields(1,2) timeliness_oneOfThree by simp_all
  have "onTimePercent (resolutionTimeliness r) = percent 1 3"
    "overduePercent (resolutionTimeliness r) = percent 2 3"
    using counts unfolding rt resolutionTimelinessOf_fields(3,4)
    by (simp_all add: Let_def numeral_3_eq_3)
  then have "js_add (onTimePercent (resolutionTimeliness r)) (overduePercent (resolutionTimeliness r))
         = Num (7036874417766399 / 70368744177664)"
    by (simp only: sum_1_2)
  then show ?thesis
    using r counts by auto
qed

lemma timeliness_counts_sample:
  "onTime (resolutionTimelinessOf sampleHost sampleIssues) = 1"
  "overdue (resolutionTimelinessOf sampleHost sampleIssues) = 1"
  unfolding resolutionTimelinessOf_fields(1,2) timeliness_sample by simp_all

theorem timeliness_percentages_witness:
  "0 < onTime (resolutionTimelinessOf sampleHost sampleIssues)
       + overdue (resolutionTimelinessOf sampleHost sampleIssues) \<and>
   onTimePercent (resolutionTimelinessOf sampleHost sampleIssues) = percent 1 2 \<and>
   overduePercent (resolutionTimelinessOf sampleHost sampleIssues) = percent 1 2 \<and>
   (\<exists>p q s.
      onTimePercent (resolutionTimelinessOf sampleHost sampleIssues) = Num p \<and>
      overduePercent (resolutionTimelinessOf sampleHost sampleIssues) = Num q \<and>
      js_add (onTimePercent (resolutionTimelinessOf sampleHost sampleIssues))
             (overduePercent (resolutionTimelinessOf sampleHost sampleIssues)) = Num s \<and>
      \<bar>p + q - 100\<bar> \<le> 1 / 10 ^ 13 \<and> \<bar>s - 100\<bar> \<le> 1 / 10 ^ 13)"
proof -
  have pos: "0 < onTime (resolutionTimelinessOf sampleHost sampleIssues)
       + overdue (resolutionTimelinessOf sampleHost sampleIssues)"
    unfolding timeliness_counts_sample by simp
  have two: "(1::nat) + 1 = 2"
    by simp
  note t = timeliness_percentages [of sampleHost sampleIssues, THEN conjunct2, THEN conjunct1,
      THEN mp, OF pos, unfolded timeliness_counts_sample two]
  show ?thesis
    using pos t by blast
qed

section \<open>The average time to close\<close>

lemma timeDiffMs_duration:
  "timeDiffMs h issue = (case duration h issue of None \<Rightarrow> NaN | Some d \<Rightarrow> fl (of_int d))"
  by (simp add: timeDiffMs_def duration_def getTime_def Let_def split: option.splits)

lemma timeDiffMs_NaN_iff:
  "timeDiffMs h issue = NaN \<longleftrightarrow>
     newDate h (created issue) = None \<or> newDate h (updated issue) = None"
proof -
  have "fl x \<noteq> NaN" for x
    by (simp add: fl_def Let_def)
  then show ?thesis
    by (auto simp: timeDiffMs_def getTime_def Let_def split: option.splits)
qed

lemma foldl_addTimeToClose_snd:
  "snd (foldl (addTimeToClose h) acc xs) = snd acc @ map (\<lambda>issue. (issue, timeDiffMs h issue)) xs"
  by (induction xs arbitrary: acc) (simp_all add: addTimeToClose_def)

lemma timeToCloseArray_map:
  "timeToCloseArray h issues =
     map (\<lambda>issue. (issue, timeDiffMs h issue)) (highPriorityClosed h issues)"
  by (simp add: timeToCloseArray_def foldl_addTimeToClose_snd)

lemma js_add_NaN [simp]: "js_add x NaN = NaN" "js_add NaN x = NaN"
  by (cases x; simp)+

lemma foldl_addTimeToClose_NaN:
  assumes "fst acc = NaN \<or> (\<exists>issue \<in> set xs. timeDiffMs h issue = NaN)"
  shows "fst (foldl (addTimeToClose h) acc xs) = NaN"
  using assms
proof (induction xs arbitrary: acc)
  case Nil
  then show ?case by simp
next
  case (Cons x xs)
  have "fst (addTimeToClose h acc x) = NaN \<or> (\<exists>issue \<in> set xs. timeDiffMs h issue = NaN)"
    using Cons.prems by (auto simp: addTimeToClose_def)
  then show ?case
    using Cons.IH[of "addTimeToClose h acc x"] by simp
qed

lemma foldl_addTimeToClose_exact:
  assumes "map (duration h) xs = map Some ds" "\<bar>s\<bar> + sum_list (map abs ds) \<le> 2 ^ 53"
  shows "fst (foldl (addTimeToClose h) (Num (of_int s), arr) xs) = Num (of_int (s + sum_list ds))"
  using assms
proof (induction xs arbitrary: s arr ds)
  case Nil
  then show ?case by simp
next
  case (Cons x xs)
  from Cons.prems(1) obtain d ds' where ds: "ds = d # ds'" "duration h x = Some d"
    "map (duration h) xs = map Some ds'"
    by (cases ds) auto
  have nonneg: "0 \<le> sum_list (map abs ds')"
    by (induction ds') simp_all
  have b: "\<bar>s\<bar> + \<bar>d\<bar> + sum_list (map abs ds') \<le> 2 ^ 53"
    using Cons.prems(2) unfolding ds(1) by simp
  have d: "timeDiffMs h x = Num (of_int d)"
    unfolding timeDiffMs_duration ds(2) using nonneg b by (simp add: fl_exact_int)
  have "\<bar>s + d\<bar> \<le> 2 ^ 53"
    using nonneg b by linarith
  then have step: "js_add (Num (of_int s)) (Num (of_int d)) = Num (of_int (s + d))"
    using fl_exact_int[of "s + d"] by simp
  have "\<bar>s + d\<bar> + sum_list (map abs ds') \<le> 2 ^ 53"
    using b by linarith
  from Cons.IH[OF ds(3) this, of "arr @ [(x, Num (of_int d))]"]
  have "fst (foldl (addTimeToClose h) (Num (of_int (s + d)), arr @ [(x, Num (of_int d))]) xs) =
      Num (of_int (s + sum_list ds))"
    unfolding ds(1) by (simp only: sum_list.Cons add.assoc)
  moreover have "addTimeToClose h (Num (of_int s), arr) x =
      (Num (of_int (s + d)), arr @ [(x, Num (of_int d))])"
    unfolding addTimeToClose_def fst_conv snd_conv d step by (rule refl)
  ultimately show ?case
    by (simp only: foldl_Cons)
qed

lemma round2_zero: "round2 (Num 0) = Num 0"
  by (simp add: round2_def fl_def)

lemma highPriorityAnalysisOf_empty:
  assumes "highPriorityClosed h issues = []"
  shows "highPriorityAnalysisOf h issues =
     \<lparr>averageTimeToCloseHours = Num 0, averageTimeToCloseDays = Num 0, totalClosedHighPriority = 0\<rparr>"
  using assms
  by (simp add: highPriorityAnalysisOf_def averageTimeToCloseMs_def round2_zero fl_def Let_def)

lemma highPriorityClosed_filter:
  "highPriorityClosed h issues =
     filter (\<lambda>issue. priorityKey h issue = ''high'' \<and> resolved h issue) issues"
  by (simp add: highPriorityClosed_def priorityKey_def resolved_def Let_def)

lemma averages_rounded:
  assumes ne: "highPriorityClosed h issues \<noteq> []"
    and ds: "map (duration h) (highPriorityClosed h issues) = map Some ds"
    and small: "sum_list (map abs ds) \<le> 2 ^ 53"
  shows "\<exists>kh kd.
      averageTimeToCloseHours (highPriorityAnalysisOf h issues) = fl (of_int kh / 100) \<and>
      \<bar>of_int kh - 100 * meanHours ds\<bar> \<le> 1 / 2 + 2 powi (- 50) * (100 * \<bar>meanHours ds\<bar> + 1) \<and>
      averageTimeToCloseDays (highPriorityAnalysisOf h issues) = fl (of_int kd / 100) \<and>
      \<bar>of_int kd - 100 * (meanHours ds / 24)\<bar>
        \<le> 1 / 2 + 2 powi (- 50) * (100 * \<bar>meanHours ds / 24\<bar> + 1)"
proof -
  define n where "n = length (highPriorityClosed h issues)"
  have n: "0 < n" "length ds = n"
    using ne ds unfolding n_def by (simp, metis length_map)
  have "\<bar>0::int\<bar> + sum_list (map abs ds) \<le> 2 ^ 53"
    using small by simp
  from foldl_addTimeToClose_exact[OF ds this, of "[]"]
  have total: "totalTimeToClose h issues = Num (of_int (sum_list ds))"
    by (simp add: totalTimeToClose_def)
  have avg: "averageTimeToCloseMs h issues = js_div (Num (of_int (sum_list ds))) (js_nat n)"
    using n(1) unfolding averageTimeToCloseMs_def total n_def by simp
  have "\<bar>sum_list ds\<bar> \<le> sum_list (map abs ds)"
    by (induction ds) auto
  then have S: "\<bar>sum_list ds\<bar> \<le> 2 ^ 53"
    using small by linarith
  from mean_bound[OF S n(1)] obtain hours days kh kd where b:
    "js_div (js_div (Num (of_int (sum_list ds))) (js_nat n)) (Num 3600000) = Num hours"
    "js_div (Num hours) (Num 24) = Num days"
    "round2 (Num hours) = fl (of_int kh / 100)"
    "\<bar>of_int kh - 100 * (of_int (sum_list ds) / (real n * 3600000))\<bar>
       \<le> 1 / 2 + 2 powi (- 50) * (100 * \<bar>of_int (sum_list ds) / (real n * 3600000)\<bar> + 1)"
    "round2 (Num days) = fl (of_int kd / 100)"
    "\<bar>of_int kd - 100 * (of_int (sum_list ds) / (real n * 3600000) / 24)\<bar>
       \<le> 1 / 2 + 2 powi (- 50) * (100 * \<bar>of_int (sum_list ds) / (real n * 3600000) / 24\<bar> + 1)"
    by blast
  have "averageTimeToCloseHours (highPriorityAnalysisOf h issues) = fl (of_int kh / 100)"
    "averageTimeToCloseDays (highPriorityAnalysisOf h issues) = fl (of_int kd / 100)"
    unfolding highPriorityAnalysisOf_def Let_def avg using b(1,2,3,5) by simp_all
  then show ?thesis
    using b(4,6) unfolding meanHours_def n(2) by blast
qed

lemma highPriorityClosed_twoAndTen:
  "highPriorityClosed sampleHost twoAndTenHours = take 2 twoAndTenHours"
  by (simp add: highPriorityClosed_def sample_defs twoAndTenHours_def)

lemma durations_twoAndTen:
  "map (duration sampleHost) (highPriorityClosed sampleHost twoAndTenHours) =
     map Some [7200000, 36000000]"
  unfolding highPriorityClosed_twoAndTen
  by (simp add: duration_def sample_defs twoAndTenHours_def)


lemma js_div_NaN [simp]: "js_div NaN x = NaN"
  by simp

lemma round2_NaN [simp]: "round2 NaN = NaN"
  by (simp add: round2_def)

lemma averages_NaN:
  assumes "\<exists>issue \<in> set (highPriorityClosed h issues).
      newDate h (created issue) = None \<or> newDate h (updated issue) = None"
  shows "averageTimeToCloseHours (highPriorityAnalysisOf h issues) = NaN"
    and "averageTimeToCloseDays (highPriorityAnalysisOf h issues) = NaN"
proof -
  have "\<exists>issue \<in> set (highPriorityClosed h issues). timeDiffMs h issue = NaN"
    using assms unfolding timeDiffMs_NaN_iff .
  then have "totalTimeToClose h issues = NaN"
    unfolding totalTimeToClose_def by (intro foldl_addTimeToClose_NaN) simp
  moreover have "0 < length (highPriorityClosed h issues)"
    using assms by auto
  ultimately have "averageTimeToCloseMs h issues = NaN"
    by (simp add: averageTimeToCloseMs_def)
  then show "averageTimeToCloseHours (highPriorityAnalysisOf h issues) = NaN"
    and "averageTimeToCloseDays (highPriorityAnalysisOf h issues) = NaN"
    by (simp_all add: highPriorityAnalysisOf_def Let_def)
qed





section \<open>Timestamps that do not parse\<close>

lemma isFinite_Num [simp]: "isFinite (Num r)"
  by (simp add: isFinite_def)

lemma isFinite_percent: "c \<le> t \<Longrightarrow> 0 < t \<Longrightarrow> isFinite (percent c t)"
  using percent_bound[of c t] by auto

lemma status_counts_le:
  "open' (statusCounts h issues) \<le> length issues"
  "closed' (statusCounts h issues) \<le> length issues"
  "pending (statusCounts h issues) \<le> length issues"
  "hold (statusCounts h issues) \<le> length issues"
  "solved (statusCounts h issues) \<le> length issues"
  "new' (statusCounts h issues) \<le> length issues"
proof -
  have "counted (statusCounts h issues) \<le> length issues"
    unfolding counted_statusCounts by (rule length_filter_le)
  then show "open' (statusCounts h issues) \<le> length issues"
    "closed' (statusCounts h issues) \<le> length issues"
    "pending (statusCounts h issues) \<le> length issues"
    "hold (statusCounts h issues) \<le> length issues"
    "solved (statusCounts h issues) \<le> length issues"
    "new' (statusCounts h issues) \<le> length issues"
    by (simp_all add: counted_def)
qed

lemma priority_foldl_le:
  "high (foldl (countPriority h) c issues) + normal (foldl (countPriority h) c issues)
     + low (foldl (countPriority h) c issues) \<le> high c + normal c + low c + length issues"
proof (induction issues arbitrary: c)
  case Nil
  then show ?case by simp
next
  case (Cons issue issues)
  have "high (countPriority h c issue) + normal (countPriority h c issue)
      + low (countPriority h c issue) \<le> high c + normal c + low c + 1"
    by (simp add: countPriority_def Let_def)
  then show ?case
    using Cons.IH[of "countPriority h c issue"] by simp
qed

lemma priority_counts_le:
  "high (priorityCounts h issues) \<le> length issues"
  "normal (priorityCounts h issues) \<le> length issues"
  "low (priorityCounts h issues) \<le> length issues"
  using priority_foldl_le[of h "\<lparr>high = 0, normal = 0, low = 0\<rparr>" issues]
  by (simp_all add: priorityCounts_def)

lemma percentages_finite:
  assumes "issues \<noteq> []"
  shows "isFinite (openPercent (statusBreakdownOf h issues))"
    "isFinite (closedPercent (statusBreakdownOf h issues))"
    "isFinite (pendingPercent (statusBreakdownOf h issues))"
    "isFinite (holdPercent (statusBreakdownOf h issues))"
    "isFinite (solvedPercent (statusBreakdownOf h issues))"
    "isFinite (newPercent (statusBreakdownOf h issues))"
    "isFinite (highPercent (priorityBreakdownOf h issues))"
    "isFinite (normalPercent (priorityBreakdownOf h issues))"
    "isFinite (lowPercent (priorityBreakdownOf h issues))"
    "isFinite (onTimePercent (resolutionTimelinessOf h issues))"
    "isFinite (overduePercent (resolutionTimelinessOf h issues))"
    "isFinite (currentlyOverduePercent (resolutionTimelinessOf h issues))"
proof -
  have n: "0 < length issues"
    using assms by simp
  show "isFinite (openPercent (statusBreakdownOf h issues))"
    "isFinite (closedPercent (statusBreakdownOf h issues))"
    "isFinite (pendingPercent (statusBreakdownOf h issues))"
    "isFinite (holdPercent (statusBreakdownOf h issues))"
    "isFinite (solvedPercent (statusBreakdownOf h issues))"
    "isFinite (newPercent (statusBreakdownOf h issues))"
    using status_counts_le[of h issues] n
    by (simp_all add: statusBreakdownOf_def Let_def isFinite_percent)
  show "isFinite (highPercent (priorityBreakdownOf h issues))"
    "isFinite (normalPercent (priorityBreakdownOf h issues))"
    "isFinite (lowPercent (priorityBreakdownOf h issues))"
    using priority_counts_le[of h issues] n
    by (simp_all add: priorityBreakdownOf_def Let_def isFinite_percent)
  show "isFinite (onTimePercent (resolutionTimelinessOf h issues))"
    "isFinite (overduePercent (resolutionTimelinessOf h issues))"
    unfolding resolutionTimelinessOf_fields(3,4) by (simp_all add: Let_def isFinite_percent)
  have "currentlyOverdue (resolutionTimelinessOf h issues) \<le> length issues"
    unfolding currentlyOverdue_filter by (rule length_filter_le)
  then show "isFinite (currentlyOverduePercent (resolutionTimelinessOf h issues))"
    unfolding resolutionTimelinessOf_fields(5) using n by (simp add: isFinite_percent)
qed

lemma fl_isFinite: "\<bar>x\<bar> \<le> 2 ^ 1000 \<Longrightarrow> isFinite (fl x)"
  using fl_error_small[of x "2 ^ 1000"] by auto

lemma averages_finite:
  assumes ne: "highPriorityClosed h issues \<noteq> []"
    and ds: "map (duration h) (highPriorityClosed h issues) = map Some ds"
    and small: "sum_list (map abs ds) \<le> 2 ^ 53"
  shows "isFinite (averageTimeToCloseHours (highPriorityAnalysisOf h issues))"
    and "isFinite (averageTimeToCloseDays (highPriorityAnalysisOf h issues))"
proof -
  from averages_rounded[OF assms] obtain kh kd where k:
    "averageTimeToCloseHours (highPriorityAnalysisOf h issues) = fl (of_int kh / 100)"
    "\<bar>of_int kh - 100 * meanHours ds\<bar> \<le> 1 / 2 + 2 powi (- 50) * (100 * \<bar>meanHours ds\<bar> + 1)"
    "averageTimeToCloseDays (highPriorityAnalysisOf h issues) = fl (of_int kd / 100)"
    "\<bar>of_int kd - 100 * (meanHours ds / 24)\<bar>
        \<le> 1 / 2 + 2 powi (- 50) * (100 * \<bar>meanHours ds / 24\<bar> + 1)"
    by blast
  define A where "A = \<bar>meanHours ds\<bar>"
  have "length ds = length (highPriorityClosed h issues)"
    using ds by (metis length_map)
  then have n: "1 \<le> real (length ds)"
    using ne by (cases ds) auto
  have "\<bar>sum_list ds\<bar> \<le> sum_list (map abs ds)"
    by (induction ds) auto
  then have "\<bar>real_of_int (sum_list ds)\<bar> \<le> 2 ^ 53"
    using small by (metis (no_types, opaque_lifting) of_int_abs of_int_le_numeral_power_cancel_iff order_trans)
  moreover have "A = \<bar>real_of_int (sum_list ds)\<bar> / (real (length ds) * 3600000)"
    unfolding A_def meanHours_def by (simp add: abs_divide abs_mult)
  moreover have "\<bar>real_of_int (sum_list ds)\<bar> / (real (length ds) * 3600000)
      \<le> \<bar>real_of_int (sum_list ds)\<bar> / 1"
  proof (rule divide_left_mono)
    show "1 \<le> real (length ds) * 3600000"
      using n by linarith
    show "0 \<le> \<bar>real_of_int (sum_list ds)\<bar>"
      by simp
    show "0 < real (length ds) * 3600000 * 1"
      using n by linarith
  qed
  ultimately have A: "0 \<le> A" "A \<le> 2 ^ 53"
    by (simp_all add: A_def)
  have u: "(2::real) powi (- 50) \<le> 1"
    unfolding ulp_values by simp
  define P where "P = 2 powi (- 50) * (100 * A + 1)"
  have "P \<le> 1 * (100 * A + 1)"
    unfolding P_def using A(1) u by (intro mult_right_mono) simp_all
  then have "1 / 2 + P \<le> 1 / 2 + (100 * A + 1)"
    by simp
  moreover have "\<bar>real_of_int kh - 100 * meanHours ds\<bar> \<le> 1 / 2 + P"
    using k(2) unfolding A_def[symmetric] P_def[symmetric] .
  ultimately have "\<bar>real_of_int kh - 100 * meanHours ds\<bar> \<le> 1 / 2 + (100 * A + 1)"
    by (rule order_trans[rotated])
  then have "\<bar>real_of_int kh\<bar> \<le> 200 * A + 2"
    using A(1) unfolding A_def by linarith
  then have "\<bar>real_of_int kh / 100\<bar> \<le> 2 ^ 1000"
    using A(2) by simp
  then show "isFinite (averageTimeToCloseHours (highPriorityAnalysisOf h issues))"
    unfolding k(1) by (rule fl_isFinite)
  have B: "\<bar>meanHours ds / 24\<bar> = A / 24"
    by (simp add: A_def)
  define Q where "Q = 2 powi (- 50) * (100 * (A / 24) + 1)"
  have "Q \<le> 1 * (100 * (A / 24) + 1)"
    unfolding Q_def using A(1) u by (intro mult_right_mono) simp_all
  then have "1 / 2 + Q \<le> 1 / 2 + (100 * (A / 24) + 1)"
    by simp
  moreover have "\<bar>real_of_int kd - 100 * (meanHours ds / 24)\<bar> \<le> 1 / 2 + Q"
    using k(4) unfolding B Q_def[symmetric] .
  ultimately have "\<bar>real_of_int kd - 100 * (meanHours ds / 24)\<bar> \<le> 1 / 2 + (100 * (A / 24) + 1)"
    by (rule order_trans[rotated])
  then have "\<bar>real_of_int kd\<bar> \<le> 200 * A + 2"
    using A(1) unfolding A_def by linarith
  then have "\<bar>real_of_int kd / 100\<bar> \<le> 2 ^ 1000"
    using A(2) by simp
  then show "isFinite (averageTimeToCloseDays (highPriorityAnalysisOf h issues))"
    unfolding k(3) by (rule fl_isFinite)
qed

text \<open>
  C9 (as amended). For a non-empty input every percentage of the report is a finite
  number, whatever the timestamps are (an unparseable date only makes a comparison
  false). The means are not guarded: when the \<open>created\<close> or \<open>updated\<close> timestamp of
  a high-priority resolved record does not parse, \<open>averageTimeToCloseHours\<close> and
  \<open>averageTimeToCloseDays\<close> are both \<open>NaN\<close>; they are finite numbers when all these
  timestamps parse (the durations summing to at most \<open>2 ^ 53\<close> milliseconds in
  absolute value).
\<close>

theorem non_numeric_values:
  "(issues \<noteq> [] \<longrightarrow>
      isFinite (openPercent (statusBreakdownOf h issues)) \<and>
      isFinite (closedPercent (statusBreakdownOf h issues)) \<and>
      isFinite (pendingPercent (statusBreakdownOf h issues)) \<and>
      isFinite (holdPercent (statusBreakdownOf h issues)) \<and>
      isFinite (solvedPercent (statusBreakdownOf h issues)) \<and>
      isFinite (newPercent (statusBreakdownOf h issues)) \<and>
      isFinite (highPercent (priorityBreakdownOf h issues)) \<and>
      isFinite (normalPercent (priorityBreakdownOf h issues)) \<and>
      isFinite (lowPercent (priorityBreakdownOf h issues)) \<and>
      isFinite (onTimePercent (resolutionTimelinessOf h issues)) \<and>
      isFinite (overduePercent (resolutionTimelinessOf h issues)) \<and>
      isFinite (currentlyOverduePercent (resolutionTimelinessOf h issues))) \<and>
   ((\<exists>issue \<in> set (highPriorityClosed h issues).
        newDate h (created issue) = None \<or> newDate h (updated issue) = None) \<longrightarrow>
      averageTimeToCloseHours (highPriorityAnalysisOf h issues) = NaN \<and>
      averageTimeToCloseDays (highPriorityAnalysisOf h issues) = NaN) \<and>
   (\<forall>ds. map (duration h) (highPriorityClosed h issues) = map Some ds \<and>
      sum_list (map abs ds) \<le> 2 ^ 53 \<longrightarrow>
      isFinite (averageTimeToCloseHours (highPriorityAnalysisOf h issues)) \<and>
      isFinite (averageTimeToCloseDays (highPriorityAnalysisOf h issues))) \<and>
   (\<forall>r. analyze h (Some issues) = Inr r \<longrightarrow>
      issues \<noteq> [] \<and>
      statusBreakdown r = statusBreakdownOf h issues \<and>
      priorityBreakdown r = priorityBreakdownOf h issues \<and>
      resolutionTimeliness r = resolutionTimelinessOf h issues \<and>
      highPriorityAnalysis r = highPriorityAnalysisOf h issues)"
proof (intro conjI impI allI)
  fix ds
  assume a: "map (duration h) (highPriorityClosed h issues) = map Some ds \<and>
      sum_list (map abs ds) \<le> 2 ^ 53"
  show "isFinite (averageTimeToCloseHours (highPriorityAnalysisOf h issues))"
    using a averages_finite(1)[of h issues ds]
    by (cases "highPriorityClosed h issues = []") (simp_all add: highPriorityAnalysisOf_empty)
  show "isFinite (averageTimeToCloseDays (highPriorityAnalysisOf h issues))"
    using a averages_finite(2)[of h issues ds]
    by (cases "highPriorityClosed h issues = []") (simp_all add: highPriorityAnalysisOf_empty)
qed (simp_all only: percentages_finite averages_NaN analyze_Inr not_False_eq_True)

text \<open>
  C9 as stated fails: for one closed high-priority ticket whose \<open>created\<close> is not a
  date the duration is \<open>NaN\<close>, nothing clamps or excludes it, and both averages of the
  report are \<open>NaN\<close>.
\<close>

theorem non_numeric_values_counterexample:
  "(\<exists>r. analyze sampleHost (Some unparsedCreated) = Inr r \<and>
        averageTimeToCloseHours (highPriorityAnalysis r) = NaN \<and>
        averageTimeToCloseDays (highPriorityAnalysis r) = NaN) \<and>
   map id' (highPriorityClosed sampleHost unparsedCreated) = [1] \<and>
   map (timeDiffMs sampleHost) unparsedCreated = [NaN]"
proof -
  have "averageSatisfactionByPriorityOf sampleHost unparsedCreated = Inr [(''high'', ''good'')]"
    by (simp add: insight_defs sample_defs unparsedCreated_def)
  moreover have "unparsedCreated \<noteq> []"
    by (simp add: unparsedCreated_def)
  ultimately obtain r where r: "analyze sampleHost (Some unparsedCreated) = Inr r"
    using analyze_Inr_intro by blast
  have hp: "highPriorityClosed sampleHost unparsedCreated = unparsedCreated"
    by (simp add: highPriorityClosed_def unparsedCreated_def sample_defs)
  have d: "map (timeDiffMs sampleHost) unparsedCreated = [NaN]"
    by (simp add: timeDiffMs_def getTime_def unparsedCreated_def sample_defs)
  have "newDate sampleHost (created (hd unparsedCreated)) = None"
    by (simp add: unparsedCreated_def sample_defs)
  then have "\<exists>issue \<in> set (highPriorityClosed sampleHost unparsedCreated).
      newDate sampleHost (created issue) = None \<or> newDate sampleHost (updated issue) = None"
    unfolding hp by (simp add: unparsedCreated_def)
  then have "averageTimeToCloseHours (highPriorityAnalysisOf sampleHost unparsedCreated) = NaN"
    "averageTimeToCloseDays (highPriorityAnalysisOf sampleHost unparsedCreated) = NaN"
    by (rule averages_NaN)+
  moreover have "map id' (highPriorityClosed sampleHost unparsedCreated) = [1]"
    unfolding hp by (simp add: unparsedCreated_def ticket_def)
  ultimately show ?thesis
    using r d analyze_Inr(5)[OF r] by simp
qed

theorem non_numeric_values_witness:
  "unparsedCreated \<noteq> [] \<and>
   isFinite (closedPercent (statusBreakdownOf sampleHost unparsedCreated)) \<and>
   isFinite (highPercent (priorityBreakdownOf sampleHost unparsedCreated)) \<and>
   isFinite (overduePercent (resolutionTimelinessOf sampleHost unparsedCreated)) \<and>
   isFinite (currentlyOverduePercent (resolutionTimelinessOf sampleHost unparsedCreated)) \<and>
   (\<exists>issue. issue \<in> set (highPriorityClosed sampleHost unparsedCreated) \<and>
      newDate sampleHost (created issue) = None) \<and>
   averageTimeToCloseHours (highPriorityAnalysisOf sampleHost unparsedCreated) = NaN \<and>
   averageTimeToCloseDays (highPriorityAnalysisOf sampleHost unparsedCreated) = NaN \<and>
   map (duration sampleHost) (highPriorityClosed sampleHost twoAndTenHours) =
     map Some [7200000, 36000000] \<and>
   isFinite (averageTimeToCloseHours (highPriorityAnalysisOf sampleHost twoAndTenHours)) \<and>
   isFinite (averageTimeToCloseDays (highPriorityAnalysisOf sampleHost twoAndTenHours)) \<and>
   (\<exists>r. analyze sampleHost (Some unparsedCreated) = Inr r \<and>
      highPriorityAnalysis r = highPriorityAnalysisOf sampleHost unparsedCreated)"
proof -
  have ne: "unparsedCreated \<noteq> []"
    by (simp add: unparsedCreated_def)
  have hp: "highPriorityClosed sampleHost unparsedCreated = unparsedCreated"
    by (simp add: highPriorityClosed_def unparsedCreated_def sample_defs)
  have bad: "\<exists>issue. issue \<in> set (highPriorityClosed sampleHost unparsedCreated) \<and>
      newDate sampleHost (created issue) = None"
    unfolding hp by (simp add: unparsedCreated_def sample_defs)
  then have bad': "\<exists>issue \<in> set (highPriorityClosed sampleHost unparsedCreated).
      newDate sampleHost (created issue) = None \<or> newDate sampleHost (updated issue) = None"
    by blast
  have "averageSatisfactionByPriorityOf sampleHost unparsedCreated = Inr [(''high'', ''good'')]"
    by (simp add: insight_defs sample_defs unparsedCreated_def)
  then obtain r where r: "analyze sampleHost (Some unparsedCreated) = Inr r"
    using analyze_Inr_intro ne by blast
  have small: "sum_list (map abs [7200000, 36000000 :: int]) \<le> 2 ^ 53"
    by simp
  note t = non_numeric_values[of unparsedCreated sampleHost]
  note t' = non_numeric_values[of twoAndTenHours sampleHost]
  note a = t[THEN conjunct1, THEN mp, OF ne]
  note b = t[THEN conjunct2, THEN conjunct1, THEN mp, OF bad']
  note c = t'[THEN conjunct2, THEN conjunct2, THEN conjunct1, THEN spec, THEN mp,
      OF conjI[OF durations_twoAndTen small]]
  note d = t[THEN conjunct2, THEN conjunct2, THEN conjunct2, THEN spec, THEN mp, OF r]
  show ?thesis
    using ne a b c d bad durations_twoAndTen r by blast
qed

section \<open>The longest time to solve\<close>

lemma foldl_longer_first_max:
  assumes "map snd (x # xs) = map Num vs"
  shows "\<exists>k < length vs. foldl longer (Some x) xs = Some ((x # xs) ! k) \<and>
           (\<forall>j < length vs. vs ! j \<le> vs ! k) \<and> (\<forall>j < k. vs ! j < vs ! k)"
  using assms
proof (induction xs arbitrary: vs rule: rev_induct)
  case Nil
  then have "length vs = 1"
    by (metis length_map length_Cons list.size(3) One_nat_def)
  then show ?case
    by simp
next
  case (snoc y xs)
  have len: "length vs = Suc (Suc (length xs))"
    using snoc.prems by (metis length_map length_Cons length_append_singleton)
  then obtain vs' w where vs: "vs = vs' @ [w]"
    by (cases vs rule: rev_cases) auto
  have len': "length vs' = Suc (length xs)"
    using len vs by simp
  have "map snd ((x # xs) @ [y]) = map Num vs' @ [Num w]"
    using snoc.prems vs by simp
  then have eqs: "map snd (x # xs) = map Num vs'" "snd y = Num w"
    using len' by simp_all
  from snoc.IH[OF eqs(1)] obtain k where k: "k < length vs'"
    "foldl longer (Some x) xs = Some ((x # xs) ! k)"
    "\<forall>j < length vs'. vs' ! j \<le> vs' ! k" "\<forall>j < k. vs' ! j < vs' ! k"
    by blast
  have sk: "snd ((x # xs) ! k) = Num (vs' ! k)"
  proof -
    have "snd ((x # xs) ! k) = map snd (x # xs) ! k"
      using k(1) len' by (intro nth_map[symmetric]) simp
    also have "\<dots> = Num (vs' ! k)"
      unfolding eqs(1) using k(1) by simp
    finally show ?thesis .
  qed
  have step: "foldl longer (Some x) (xs @ [y]) =
      (if vs' ! k < w then Some y else Some ((x # xs) ! k))"
    by (simp add: k(2) longer_def sk eqs(2))
  show ?case
  proof (cases "vs' ! k < w")
    case True
    have "foldl longer (Some x) (xs @ [y]) = Some ((x # xs @ [y]) ! length vs')"
      unfolding step using True len' by (simp add: nth_append)
    moreover have "\<forall>j < length vs. vs ! j \<le> vs ! length vs'"
    proof (intro allI impI)
      fix j assume "j < length vs"
      then consider "j < length vs'" | "j = length vs'"
        using vs by fastforce
      then show "vs ! j \<le> vs ! length vs'"
      proof cases
        case 1
        then show ?thesis
          using k(3) True unfolding vs by (fastforce simp: nth_append)
      next
        case 2
        then show ?thesis by simp
      qed
    qed
    moreover have "\<forall>j < length vs'. vs ! j < vs ! length vs'"
      using k(3) True unfolding vs by (fastforce simp: nth_append)
    moreover have "length vs' < length vs"
      using vs by simp
    ultimately show ?thesis
      by blast
  next
    case False
    have "foldl longer (Some x) (xs @ [y]) = Some ((x # xs @ [y]) ! k)"
      unfolding step using False k(1) len'
      by (metis append_Cons length_Cons nth_append)
    moreover have "\<forall>j < length vs. vs ! j \<le> vs ! k"
    proof (intro allI impI)
      fix j assume "j < length vs"
      then consider "j < length vs'" | "j = length vs'"
        using vs by fastforce
      then show "vs ! j \<le> vs ! k"
      proof cases
        case 1
        then show ?thesis
          using k(1,3) unfolding vs by (simp add: nth_append)
      next
        case 2
        then show ?thesis
          using False k(1) unfolding vs by (simp add: nth_append)
      qed
    qed
    moreover have "\<forall>j < k. vs ! j < vs ! k"
      using k(1,4) unfolding vs by (simp add: nth_append)
    moreover have "k < length vs"
      using k(1) vs by simp
    ultimately show ?thesis
      by blast
  qed
qed

lemma js_gt_NaN [simp]: "js_gt v NaN = False"
  by (cases v) simp_all

lemma foldl_longer_NaN: "foldl longer (Some (i, NaN)) xs = Some (i, NaN)"
  by (induction xs) (simp_all add: longer_def)

lemma longestEntry_empty:
  "highPriorityClosed h issues = [] \<Longrightarrow> longestEntry h issues = None"
  by (simp add: longestEntry_def timeToCloseArray_map)

lemma longestEntry_NaN:
  assumes "highPriorityClosed h issues = first # others" "timeDiffMs h first = NaN"
  shows "longestEntry h issues = Some (first, NaN)"
  unfolding longestEntry_def timeToCloseArray_map assms(1)
  by (simp add: longer_def assms(2) foldl_longer_NaN)

lemma longestEntry_first_max:
  assumes ne: "highPriorityClosed h issues \<noteq> []"
    and ds: "map (duration h) (highPriorityClosed h issues) = map Some ds"
    and small: "\<forall>d \<in> set ds. \<bar>d\<bar> \<le> 2 ^ 53"
  shows "\<exists>k < length ds. longestEntry h issues =
             Some (highPriorityClosed h issues ! k, Num (of_int (ds ! k))) \<and>
           (\<forall>j < length ds. ds ! j \<le> ds ! k) \<and> (\<forall>j < k. ds ! j < ds ! k)"
proof -
  define hpc where "hpc = highPriorityClosed h issues"
  define arr where "arr = map (\<lambda>issue. (issue, timeDiffMs h issue)) hpc"
  have len: "length ds = length hpc"
    using ds unfolding hpc_def by (metis length_map)
  have d: "timeDiffMs h (hpc ! j) = Num (of_int (ds ! j))" if "j < length hpc" for j
  proof -
    have "duration h (hpc ! j) = map (duration h) hpc ! j"
      using that by simp
    also have "\<dots> = Some (ds ! j)"
      using ds that len unfolding hpc_def by simp
    finally have "timeDiffMs h (hpc ! j) = fl (of_int (ds ! j))"
      by (simp add: timeDiffMs_duration)
    moreover have "\<bar>ds ! j\<bar> \<le> 2 ^ 53"
      using small that len by simp
    ultimately show ?thesis
      by (simp add: fl_exact_int)
  qed
  have snd_arr: "map snd arr = map Num (map real_of_int ds)"
    by (rule nth_equalityI) (simp_all add: arr_def len d)
  obtain x xs where arr: "arr = x # xs"
    using ne unfolding arr_def hpc_def by (cases "highPriorityClosed h issues") auto
  from foldl_longer_first_max[OF snd_arr[unfolded arr]]
  obtain k where k: "k < length ds" "foldl longer (Some x) xs = Some (arr ! k)"
    "\<forall>j < length ds. real_of_int (ds ! j) \<le> real_of_int (ds ! k)"
    "\<forall>j < k. real_of_int (ds ! j) < real_of_int (ds ! k)"
    unfolding arr[symmetric] by auto
  have "longestEntry h issues = foldl longer (Some x) xs"
    unfolding longestEntry_def timeToCloseArray_map hpc_def[symmetric] arr_def[symmetric] arr
    by (simp add: longer_def)
  moreover have "arr ! k = (hpc ! k, Num (of_int (ds ! k)))"
    using k(1) len by (simp add: arr_def d)
  ultimately have "longestEntry h issues = Some (hpc ! k, Num (of_int (ds ! k)))"
    using k(2) by simp
  moreover have "\<forall>j < length ds. ds ! j \<le> ds ! k"
    using k(3) by simp
  moreover have "\<forall>j < k. ds ! j < ds ! k"
    using k(4) by simp
  ultimately show ?thesis
    unfolding hpc_def using k(1) by blast
qed

lemma js_gt_irrefl [simp]: "\<not> js_gt v v"
  by (cases v) simp_all

lemma js_gt_not_NaN: "js_gt a b \<Longrightarrow> a \<noteq> NaN \<and> b \<noteq> NaN"
  by (cases a; cases b) simp_all

lemma js_gt_above: "js_gt c b \<Longrightarrow> \<not> js_gt a b \<Longrightarrow> \<not> js_gt a c"
  by (cases a; cases b; cases c) simp_all

lemma js_gt_below: "js_gt c b \<Longrightarrow> \<not> js_gt a b \<Longrightarrow> a \<noteq> NaN \<Longrightarrow> js_gt c a"
  by (cases a; cases b; cases c) simp_all

lemma foldl_longer_first_greatest:
  assumes "snd x \<noteq> NaN"
  shows "\<exists>k < length (x # xs). foldl longer (Some x) xs = Some ((x # xs) ! k) \<and>
           snd ((x # xs) ! k) \<noteq> NaN \<and>
           (\<forall>j < length (x # xs). \<not> js_gt (snd ((x # xs) ! j)) (snd ((x # xs) ! k))) \<and>
           (\<forall>j < k. snd ((x # xs) ! j) = NaN \<or> js_gt (snd ((x # xs) ! k)) (snd ((x # xs) ! j)))"
proof (induction xs rule: rev_induct)
  case Nil
  then show ?case
    using assms by simp
next
  case (snoc y xs)
  define arr where "arr = x # xs"
  define n where "n = length arr"
  have arr': "x # xs @ [y] = arr @ [y]"
    by (simp add: arr_def)
  from snoc.IH obtain k where k: "k < n"
    "foldl longer (Some x) xs = Some (arr ! k)" "snd (arr ! k) \<noteq> NaN"
    "\<forall>j < n. \<not> js_gt (snd (arr ! j)) (snd (arr ! k))"
    "\<forall>j < k. snd (arr ! j) = NaN \<or> js_gt (snd (arr ! k)) (snd (arr ! j))"
    unfolding arr_def[symmetric] n_def[symmetric] by (elim exE conjE) simp
  have step: "foldl longer (Some x) (xs @ [y]) =
      (if js_gt (snd y) (snd (arr ! k)) then Some y else Some (arr ! k))"
    by (simp add: k(2) longer_def)
  have old: "(arr @ [y]) ! j = arr ! j" if "j < n" for j
    using that by (simp add: nth_append n_def)
  have last: "(arr @ [y]) ! n = y"
    by (simp add: n_def)
  have cases: "j < n \<or> j = n" if "j < length (arr @ [y])" for j
    using that by (auto simp: n_def)
  show ?case
  proof (cases "js_gt (snd y) (snd (arr ! k))")
    case True
    have a1: "foldl longer (Some x) (xs @ [y]) = Some ((arr @ [y]) ! n)"
      unfolding step last using True by simp
    have a2: "snd ((arr @ [y]) ! n) \<noteq> NaN"
      unfolding last using js_gt_not_NaN[OF True] by simp
    have a3: "\<not> js_gt (snd ((arr @ [y]) ! j)) (snd ((arr @ [y]) ! n))"
      if "j < length (arr @ [y])" for j
      using cases[OF that]
    proof
      assume j: "j < n"
      have "\<not> js_gt (snd (arr ! j)) (snd (arr ! k))"
        using k(4) j by simp
      then show ?thesis
        unfolding last old[OF j] by (rule js_gt_above[OF True])
    next
      assume "j = n"
      then show ?thesis by simp
    qed
    have a4: "snd ((arr @ [y]) ! j) = NaN \<or> js_gt (snd ((arr @ [y]) ! n)) (snd ((arr @ [y]) ! j))"
      if j: "j < n" for j
    proof -
      have "\<not> js_gt (snd (arr ! j)) (snd (arr ! k))"
        using k(4) j by simp
      then show ?thesis
        unfolding last old[OF j] using js_gt_below[OF True] by blast
    qed
    have a5: "n < length (x # xs @ [y])"
      unfolding arr' by (simp add: n_def)
    show ?thesis
      unfolding arr'
    proof (intro exI[of _ n] conjI allI impI)
      show "n < length (arr @ [y])"
        using a5 unfolding arr' .
      show "foldl longer (Some x) (xs @ [y]) = Some ((arr @ [y]) ! n)"
        by (rule a1)
      show "snd ((arr @ [y]) ! n) \<noteq> NaN"
        by (rule a2)
      show "\<not> js_gt (snd ((arr @ [y]) ! j)) (snd ((arr @ [y]) ! n))"
        if "j < length (arr @ [y])" for j
        using that by (rule a3)
      show "snd ((arr @ [y]) ! j) = NaN \<or> js_gt (snd ((arr @ [y]) ! n)) (snd ((arr @ [y]) ! j))"
        if "j < n" for j
        using that by (rule a4)
    qed
  next
    case False
    have kk: "(arr @ [y]) ! k = arr ! k"
      by (rule old[OF k(1)])
    have a1: "foldl longer (Some x) (xs @ [y]) = Some ((arr @ [y]) ! k)"
      unfolding step kk using False by simp
    have a2: "snd ((arr @ [y]) ! k) \<noteq> NaN"
      unfolding kk by (rule k(3))
    have a3: "\<not> js_gt (snd ((arr @ [y]) ! j)) (snd ((arr @ [y]) ! k))"
      if "j < length (arr @ [y])" for j
      using cases[OF that]
    proof
      assume j: "j < n"
      show ?thesis
        unfolding kk old[OF j] using k(4) j by simp
    next
      assume "j = n"
      then show ?thesis
        unfolding kk using last False by simp
    qed
    have a4: "snd ((arr @ [y]) ! j) = NaN \<or> js_gt (snd ((arr @ [y]) ! k)) (snd ((arr @ [y]) ! j))"
      if j: "j < k" for j
    proof -
      have jn: "j < n"
        using j k(1) by simp
      show ?thesis
        unfolding kk old[OF jn] using k(5) j by simp
    qed
    have a5: "k < length (arr @ [y])"
      using k(1) by (simp add: n_def)
    show ?thesis
      unfolding arr'
    proof (intro exI[of _ k] conjI allI impI)
      show "k < length (arr @ [y])"
        by (rule a5)
      show "foldl longer (Some x) (xs @ [y]) = Some ((arr @ [y]) ! k)"
        by (rule a1)
      show "snd ((arr @ [y]) ! k) \<noteq> NaN"
        by (rule a2)
      show "\<not> js_gt (snd ((arr @ [y]) ! j)) (snd ((arr @ [y]) ! k))"
        if "j < length (arr @ [y])" for j
        using that by (rule a3)
      show "snd ((arr @ [y]) ! j) = NaN \<or> js_gt (snd ((arr @ [y]) ! k)) (snd ((arr @ [y]) ! j))"
        if "j < k" for j
        using that by (rule a4)
    qed
  qed
qed

lemma longestEntry_first_greatest:
  assumes hpc: "highPriorityClosed h issues = first # others"
    and first: "timeDiffMs h first \<noteq> NaN"
  shows "\<exists>k < length (highPriorityClosed h issues).
      longestEntry h issues =
        Some (highPriorityClosed h issues ! k, timeDiffMs h (highPriorityClosed h issues ! k)) \<and>
      timeDiffMs h (highPriorityClosed h issues ! k) \<noteq> NaN \<and>
      (\<forall>j < length (highPriorityClosed h issues).
         \<not> js_gt (timeDiffMs h (highPriorityClosed h issues ! j))
              (timeDiffMs h (highPriorityClosed h issues ! k))) \<and>
      (\<forall>j < k. timeDiffMs h (highPriorityClosed h issues ! j) = NaN \<or>
         js_gt (timeDiffMs h (highPriorityClosed h issues ! k))
           (timeDiffMs h (highPriorityClosed h issues ! j)))"
proof -
  define pair where "pair = (\<lambda>issue. (issue, timeDiffMs h issue))"
  define l where "l = highPriorityClosed h issues"
  have arr: "timeToCloseArray h issues = pair first # map pair others"
    unfolding timeToCloseArray_map hpc pair_def by simp
  have le: "longestEntry h issues = foldl longer (Some (pair first)) (map pair others)"
    unfolding longestEntry_def arr by (simp add: longer_def)
  have m: "pair first # map pair others = map pair l"
    unfolding l_def hpc by simp
  have "snd (pair first) \<noteq> NaN"
    using first by (simp add: pair_def)
  from foldl_longer_first_greatest[OF this, of "map pair others"]
  obtain k where k: "k < length l" "longestEntry h issues = Some (map pair l ! k)"
    "snd (map pair l ! k) \<noteq> NaN"
    "\<forall>j < length l. \<not> js_gt (snd (map pair l ! j)) (snd (map pair l ! k))"
    "\<forall>j < k. snd (map pair l ! j) = NaN \<or> js_gt (snd (map pair l ! k)) (snd (map pair l ! j))"
    unfolding le[symmetric] m by auto
  have p: "map pair l ! j = (l ! j, timeDiffMs h (l ! j))" if "j < length l" for j
    using that by (simp add: pair_def)
  have "longestEntry h issues = Some (l ! k, timeDiffMs h (l ! k))"
    using k(2) p[OF k(1)] by simp
  moreover have "timeDiffMs h (l ! k) \<noteq> NaN"
    using k(3) p[OF k(1)] by simp
  moreover have "\<forall>j < length l. \<not> js_gt (timeDiffMs h (l ! j)) (timeDiffMs h (l ! k))"
    using k(4) p k(1) by simp
  moreover have "\<forall>j < k. timeDiffMs h (l ! j) = NaN \<or> js_gt (timeDiffMs h (l ! k)) (timeDiffMs h (l ! j))"
  proof (intro allI impI)
    fix j assume j: "j < k"
    then have "j < length l"
      using k(1) by simp
    then show "timeDiffMs h (l ! j) = NaN \<or> js_gt (timeDiffMs h (l ! k)) (timeDiffMs h (l ! j))"
      using k(5) j p k(1) by simp
  qed
  ultimately show ?thesis
    unfolding l_def[symmetric] using k(1) by (intro exI[of _ k]) simp
qed

text \<open>
  C1 (as amended). With the high-priority resolved records in input order: when there
  is none, \<open>longestToSolveHighPriority\<close> is the sentinel with \<open>issueId = 0\<close>, zero
  durations and the score \<open>N/A\<close>. When there are some and the timestamps of the first
  one parse, it describes a record \<open>k\<close> whose duration \<open>updated - created\<close> is a
  number, that no record's duration exceeds (\<open>>\<close> as the handler compares), and that
  exceeds the duration of every earlier record whose duration is a number: the first
  record of the greatest duration among those whose timestamps parse. The duration is
  \<open>NaN\<close> exactly when \<open>created\<close> or \<open>updated\<close> does not parse, and is the exact
  difference in milliseconds up to \<open>2 ^ 53\<close>; so when all the timestamps parse, with
  durations \<open>ds\<close> of at most \<open>2 ^ 53\<close> each, \<open>ds ! k\<close> is the greatest of \<open>ds\<close> and
  strictly greater than every earlier one. The report carries this value.
\<close>

theorem longest_to_solve:
  "(highPriorityClosed h issues = [] \<longrightarrow>
      longestToSolveHighPriorityOf h issues =
        \<lparr>issueId = 0, timeToSolveHours = Num 0, timeToSolveDays = Num 0,
         satisfactionRatingScore = ''N/A''\<rparr>) \<and>
   (\<forall>ds. highPriorityClosed h issues \<noteq> [] \<and>
      map (duration h) (highPriorityClosed h issues) = map Some ds \<and>
      (\<forall>d \<in> set ds. \<bar>d\<bar> \<le> 2 ^ 53) \<longrightarrow>
      (\<exists>k < length ds.
         (\<forall>j < length ds. ds ! j \<le> ds ! k) \<and> (\<forall>j < k. ds ! j < ds ! k) \<and>
         longestToSolveHighPriorityOf h issues =
           \<lparr>issueId = id' (highPriorityClosed h issues ! k),
            timeToSolveHours = round2 (js_div (Num (of_int (ds ! k))) (Num (1000 * 60 * 60))),
            timeToSolveDays = round2 (js_div (Num (of_int (ds ! k))) (Num (1000 * 60 * 60 * 24))),
            satisfactionRatingScore =
              (case ratingScore (highPriorityClosed h issues ! k) of
                 Some s \<Rightarrow> s | None \<Rightarrow> ''N/A'')\<rparr>)) \<and>
   (\<forall>first others. highPriorityClosed h issues = first # others \<and>
      newDate h (created first) \<noteq> None \<and> newDate h (updated first) \<noteq> None \<longrightarrow>
      (\<exists>k < length (highPriorityClosed h issues).
         timeDiffMs h (highPriorityClosed h issues ! k) \<noteq> NaN \<and>
         (\<forall>j < length (highPriorityClosed h issues).
            \<not> js_gt (timeDiffMs h (highPriorityClosed h issues ! j))
                 (timeDiffMs h (highPriorityClosed h issues ! k))) \<and>
         (\<forall>j < k. timeDiffMs h (highPriorityClosed h issues ! j) = NaN \<or>
            js_gt (timeDiffMs h (highPriorityClosed h issues ! k))
              (timeDiffMs h (highPriorityClosed h issues ! j))) \<and>
         longestToSolveHighPriorityOf h issues =
           \<lparr>issueId = id' (highPriorityClosed h issues ! k),
            timeToSolveHours =
              round2 (js_div (timeDiffMs h (highPriorityClosed h issues ! k)) (Num (1000 * 60 * 60))),
            timeToSolveDays =
              round2 (js_div (timeDiffMs h (highPriorityClosed h issues ! k)) (Num (1000 * 60 * 60 * 24))),
            satisfactionRatingScore =
              (case ratingScore (highPriorityClosed h issues ! k) of
                 Some s \<Rightarrow> s | None \<Rightarrow> ''N/A'')\<rparr>)) \<and>
   (\<forall>issue. (timeDiffMs h issue = NaN) =
      (newDate h (created issue) = None \<or> newDate h (updated issue) = None)) \<and>
   (\<forall>issue d. duration h issue = Some d \<and> \<bar>d\<bar> \<le> 2 ^ 53 \<longrightarrow>
      timeDiffMs h issue = Num (of_int d)) \<and>
   highPriorityClosed h issues =
     filter (\<lambda>issue. priorityKey h issue = ''high'' \<and> resolved h issue) issues \<and>
   (\<forall>r. analyze h (Some issues) = Inr r \<longrightarrow>
      longestToSolveHighPriority r = longestToSolveHighPriorityOf h issues)"
proof (intro conjI impI allI)
  assume "highPriorityClosed h issues = []"
  then show "longestToSolveHighPriorityOf h issues =
      \<lparr>issueId = 0, timeToSolveHours = Num 0, timeToSolveDays = Num 0,
       satisfactionRatingScore = ''N/A''\<rparr>"
    by (simp add: longestToSolveHighPriorityOf_def longestEntry_empty)
next
  fix ds
  assume a: "highPriorityClosed h issues \<noteq> [] \<and>
      map (duration h) (highPriorityClosed h issues) = map Some ds \<and>
      (\<forall>d \<in> set ds. \<bar>d\<bar> \<le> 2 ^ 53)"
  then obtain k where k: "k < length ds"
    "longestEntry h issues = Some (highPriorityClosed h issues ! k, Num (of_int (ds ! k)))"
    "\<forall>j < length ds. ds ! j \<le> ds ! k" "\<forall>j < k. ds ! j < ds ! k"
    using longestEntry_first_max[of h issues ds] by blast
  have "longestToSolveHighPriorityOf h issues =
      \<lparr>issueId = id' (highPriorityClosed h issues ! k),
       timeToSolveHours = round2 (js_div (Num (of_int (ds ! k))) (Num (1000 * 60 * 60))),
       timeToSolveDays = round2 (js_div (Num (of_int (ds ! k))) (Num (1000 * 60 * 60 * 24))),
       satisfactionRatingScore =
         (case ratingScore (highPriorityClosed h issues ! k) of
            Some s \<Rightarrow> s | None \<Rightarrow> ''N/A'')\<rparr>"
    unfolding longestToSolveHighPriorityOf_def k(2) by simp
  then show "\<exists>k < length ds.
      (\<forall>j < length ds. ds ! j \<le> ds ! k) \<and> (\<forall>j < k. ds ! j < ds ! k) \<and>
      longestToSolveHighPriorityOf h issues =
        \<lparr>issueId = id' (highPriorityClosed h issues ! k),
         timeToSolveHours = round2 (js_div (Num (of_int (ds ! k))) (Num (1000 * 60 * 60))),
         timeToSolveDays = round2 (js_div (Num (of_int (ds ! k))) (Num (1000 * 60 * 60 * 24))),
         satisfactionRatingScore =
           (case ratingScore (highPriorityClosed h issues ! k) of
              Some s \<Rightarrow> s | None \<Rightarrow> ''N/A'')\<rparr>"
    using k(1,3,4) by blast
next
  fix first others
  assume a: "highPriorityClosed h issues = first # others \<and>
      newDate h (created first) \<noteq> None \<and> newDate h (updated first) \<noteq> None"
  then have nn: "timeDiffMs h first \<noteq> NaN"
    unfolding timeDiffMs_NaN_iff by simp
  have hp: "highPriorityClosed h issues = first # others"
    using a by (rule conjunct1)
  from longestEntry_first_greatest[OF hp nn] obtain k where k: "k < length (highPriorityClosed h issues)"
    "longestEntry h issues =
       Some (highPriorityClosed h issues ! k, timeDiffMs h (highPriorityClosed h issues ! k))"
    "timeDiffMs h (highPriorityClosed h issues ! k) \<noteq> NaN"
    "\<forall>j < length (highPriorityClosed h issues).
       \<not> js_gt (timeDiffMs h (highPriorityClosed h issues ! j))
            (timeDiffMs h (highPriorityClosed h issues ! k))"
    "\<forall>j < k. timeDiffMs h (highPriorityClosed h issues ! j) = NaN \<or>
       js_gt (timeDiffMs h (highPriorityClosed h issues ! k))
         (timeDiffMs h (highPriorityClosed h issues ! j))"
    by blast
  have r: "longestToSolveHighPriorityOf h issues =
      \<lparr>issueId = id' (highPriorityClosed h issues ! k),
       timeToSolveHours =
         round2 (js_div (timeDiffMs h (highPriorityClosed h issues ! k)) (Num (1000 * 60 * 60))),
       timeToSolveDays =
         round2 (js_div (timeDiffMs h (highPriorityClosed h issues ! k)) (Num (1000 * 60 * 60 * 24))),
       satisfactionRatingScore =
         (case ratingScore (highPriorityClosed h issues ! k) of
            Some s \<Rightarrow> s | None \<Rightarrow> ''N/A'')\<rparr>"
    unfolding longestToSolveHighPriorityOf_def k(2) by simp
  show "\<exists>k < length (highPriorityClosed h issues).
      timeDiffMs h (highPriorityClosed h issues ! k) \<noteq> NaN \<and>
      (\<forall>j < length (highPriorityClosed h issues).
         \<not> js_gt (timeDiffMs h (highPriorityClosed h issues ! j))
              (timeDiffMs h (highPriorityClosed h issues ! k))) \<and>
      (\<forall>j < k. timeDiffMs h (highPriorityClosed h issues ! j) = NaN \<or>
         js_gt (timeDiffMs h (highPriorityClosed h issues ! k))
           (timeDiffMs h (highPriorityClosed h issues ! j))) \<and>
      longestToSolveHighPriorityOf h issues =
        \<lparr>issueId = id' (highPriorityClosed h issues ! k),
         timeToSolveHours =
           round2 (js_div (timeDiffMs h (highPriorityClosed h issues ! k)) (Num (1000 * 60 * 60))),
         timeToSolveDays =
           round2 (js_div (timeDiffMs h (highPriorityClosed h issues ! k)) (Num (1000 * 60 * 60 * 24))),
         satisfactionRatingScore =
           (case ratingScore (highPriorityClosed h issues ! k) of
              Some s \<Rightarrow> s | None \<Rightarrow> ''N/A'')\<rparr>"
    using k(1) conjI[OF k(3) conjI[OF k(4) conjI[OF k(5) r]]] by (rule exI[of _ k, OF conjI])
next
  fix issue
  show "(timeDiffMs h issue = NaN) =
      (newDate h (created issue) = None \<or> newDate h (updated issue) = None)"
    by (rule timeDiffMs_NaN_iff)
next
  fix issue d
  assume "duration h issue = Some d \<and> \<bar>d\<bar> \<le> 2 ^ 53"
  then show "timeDiffMs h issue = Num (of_int d)"
    by (simp add: timeDiffMs_duration fl_exact_int)
next
  show "highPriorityClosed h issues =
      filter (\<lambda>issue. priorityKey h issue = ''high'' \<and> resolved h issue) issues"
    by (rule highPriorityClosed_filter)
next
  fix r
  assume "analyze h (Some issues) = Inr r"
  then show "longestToSolveHighPriority r = longestToSolveHighPriorityOf h issues"
    by (rule analyze_Inr(6))
qed

lemma highPriorityClosed_unparsedFirst:
  "highPriorityClosed sampleHost unparsedFirst = unparsedFirst"
  by (simp add: highPriorityClosed_def unparsedFirst_def sample_defs)

lemma highPriorityClosed_tiedDurations:
  "highPriorityClosed sampleHost tiedDurations = tiedDurations"
  by (simp add: highPriorityClosed_def tiedDurations_def sample_defs)

lemma durations_tiedDurations:
  "map (duration sampleHost) (highPriorityClosed sampleHost tiedDurations) =
     map Some [7200000, 36000000, 36000000]"
  unfolding highPriorityClosed_tiedDurations
  by (simp add: duration_def sample_defs tiedDurations_def)

lemma analyze_unparsedFirst: "\<not> isl (analyze sampleHost (Some unparsedFirst))"
proof -
  have "averageSatisfactionByPriorityOf sampleHost unparsedFirst = Inr [(''high'', ''bad'')]"
    by (simp add: insight_defs sample_defs unparsedFirst_def)
  moreover have "unparsedFirst \<noteq> []"
    by (simp add: unparsedFirst_def)
  ultimately obtain r where "analyze sampleHost (Some unparsedFirst) = Inr r"
    using analyze_Inr_intro by blast
  then show ?thesis
    by simp
qed

text \<open>
  C1 as stated fails when the first high-priority resolved record has a timestamp
  that does not parse: its duration is \<open>NaN\<close>, no duration compares greater than
  \<open>NaN\<close>, and the scan ends on that record although the second one is the only
  record with a duration (ten hours).
\<close>

theorem longest_to_solve_counterexample:
  "\<not> isl (analyze sampleHost (Some unparsedFirst)) \<and>
   issueId (longestToSolveHighPriority (projr (analyze sampleHost (Some unparsedFirst)))) = 1 \<and>
   timeToSolveHours (longestToSolveHighPriority (projr (analyze sampleHost (Some unparsedFirst)))) = NaN \<and>
   map id' (highPriorityClosed sampleHost unparsedFirst) = [1, 2] \<and>
   map (duration sampleHost) (highPriorityClosed sampleHost unparsedFirst) = [None, Some 36000000]"
proof -
  obtain r where r: "analyze sampleHost (Some unparsedFirst) = Inr r"
    using analyze_unparsedFirst by (cases "analyze sampleHost (Some unparsedFirst)") auto
  have ids: "map id' (highPriorityClosed sampleHost unparsedFirst) = [1, 2]"
    unfolding highPriorityClosed_unparsedFirst by (simp add: unparsedFirst_def ticket_def)
  have ds: "map (duration sampleHost) (highPriorityClosed sampleHost unparsedFirst) =
      [None, Some 36000000]"
    unfolding highPriorityClosed_unparsedFirst
    by (simp add: duration_def sample_defs unparsedFirst_def)
  obtain first others where f: "highPriorityClosed sampleHost unparsedFirst = first # others"
    using ids by (cases "highPriorityClosed sampleHost unparsedFirst") auto
  have "timeDiffMs sampleHost first = NaN" "id' first = 1"
    using ids ds unfolding f by (simp_all add: timeDiffMs_duration)
  then have e: "longestEntry sampleHost unparsedFirst = Some (first, NaN)" "id' first = 1"
    using longestEntry_NaN[OF f] by simp_all
  have "issueId (longestToSolveHighPriorityOf sampleHost unparsedFirst) = 1"
    "timeToSolveHours (longestToSolveHighPriorityOf sampleHost unparsedFirst) = NaN"
    unfolding longestToSolveHighPriorityOf_def e(1) by (simp_all add: e(2))
  then show ?thesis
    using ids ds analyze_Inr(6)[OF r] r by simp
qed

lemma highPriorityClosed_unparsedSecond:
  "highPriorityClosed sampleHost unparsedSecond = unparsedSecond"
  by (simp add: highPriorityClosed_def unparsedSecond_def sample_defs)

lemma durations_unparsedSecond:
  "map (timeDiffMs sampleHost) unparsedSecond = [Num 7200000, NaN, Num 36000000]"
proof -
  have "map (duration sampleHost) unparsedSecond = [Some 7200000, None, Some 36000000]"
    by (simp add: duration_def sample_defs unparsedSecond_def)
  moreover have "fl (real_of_int 7200000) = Num (real_of_int 7200000)"
    "fl (real_of_int 36000000) = Num (real_of_int 36000000)"
    by (rule fl_exact_int, simp)+
  ultimately show ?thesis
    by (simp add: timeDiffMs_duration unparsedSecond_def)
qed

theorem longest_to_solve_witness:
  "highPriorityClosed sampleHost tiedDurations \<noteq> [] \<and>
   map (duration sampleHost) (highPriorityClosed sampleHost tiedDurations) =
     map Some [7200000, 36000000, 36000000] \<and>
   map id' (highPriorityClosed sampleHost tiedDurations) = [1, 2, 3] \<and>
   issueId (longestToSolveHighPriorityOf sampleHost tiedDurations) = 2 \<and>
   satisfactionRatingScore (longestToSolveHighPriorityOf sampleHost tiedDurations) = ''bad'' \<and>
   map id' (highPriorityClosed sampleHost unparsedSecond) = [1, 2, 3] \<and>
   map (timeDiffMs sampleHost) (highPriorityClosed sampleHost unparsedSecond) =
     [Num 7200000, NaN, Num 36000000] \<and>
   issueId (longestToSolveHighPriorityOf sampleHost unparsedSecond) = 3 \<and>
   highPriorityClosed sampleHost dueAtNoon = [] \<and>
   longestToSolveHighPriorityOf sampleHost dueAtNoon =
     \<lparr>issueId = 0, timeToSolveHours = Num 0, timeToSolveDays = Num 0,
      satisfactionRatingScore = ''N/A''\<rparr>"
proof -
  have ne: "highPriorityClosed sampleHost tiedDurations \<noteq> []"
    unfolding highPriorityClosed_tiedDurations by (simp add: tiedDurations_def)
  have small: "\<forall>d \<in> set [7200000, 36000000, 36000000 :: int]. \<bar>d\<bar> \<le> 2 ^ 53"
    by simp
  have ids: "map id' (highPriorityClosed sampleHost tiedDurations) = [1, 2, 3]"
    unfolding highPriorityClosed_tiedDurations by (simp add: tiedDurations_def ticket_def)
  have sc: "map ratingScore (highPriorityClosed sampleHost tiedDurations) =
      [Some ''good'', Some ''bad'', None]"
    unfolding highPriorityClosed_tiedDurations
    by (simp add: tiedDurations_def ticket_def ratingScore_def)
  have empty: "highPriorityClosed sampleHost dueAtNoon = []"
    by (simp add: highPriorityClosed_def dueAtNoon_def sample_defs)
  note t = longest_to_solve[of sampleHost tiedDurations]
  note t' = longest_to_solve[of sampleHost dueAtNoon]
  note a = t[THEN conjunct2, THEN conjunct1, THEN spec, THEN mp,
      OF conjI[OF ne conjI[OF durations_tiedDurations small]]]
  note b = t'[THEN conjunct1, THEN mp, OF empty]
  define ds :: "int list" where "ds = [7200000, 36000000, 36000000]"
  define hpc where "hpc = highPriorityClosed sampleHost tiedDurations"
  obtain k where k: "k < length ds" "\<forall>j < length ds. ds ! j \<le> ds ! k" "\<forall>j < k. ds ! j < ds ! k"
    "issueId (longestToSolveHighPriorityOf sampleHost tiedDurations) = id' (hpc ! k)"
    "satisfactionRatingScore (longestToSolveHighPriorityOf sampleHost tiedDurations) =
       (case ratingScore (hpc ! k) of Some s \<Rightarrow> s | None \<Rightarrow> ''N/A'')"
    using a unfolding ds_def[symmetric] hpc_def[symmetric] by fastforce
  have "k < 3"
    using k(1) by (simp add: ds_def)
  then consider "k = 0" | "k = 1" | "k = 2"
    by linarith
  then have k1: "k = 1"
  proof cases
    case 1
    have "ds ! 1 \<le> ds ! k"
      using k(2)[THEN spec, of 1] by (simp add: ds_def)
    then show ?thesis
      unfolding 1 by (simp add: ds_def)
  next
    case 2
    then show ?thesis .
  next
    case 3
    have "ds ! 1 < ds ! k"
      using k(3)[THEN spec, of 1] unfolding 3 by simp
    then show ?thesis
      unfolding 3 by (simp add: ds_def)
  qed
  have "id' (hpc ! 1) = map id' hpc ! 1" "ratingScore (hpc ! 1) = map ratingScore hpc ! 1"
    using ids unfolding hpc_def by (metis length_map nth_map length_Cons one_less_numeral_iff
        lessI less_Suc_eq list.size(3) One_nat_def semiring_norm(76))+
  then have "id' (hpc ! 1) = 2" "ratingScore (hpc ! 1) = Some ''bad''"
    using ids sc unfolding hpc_def by simp_all
  then have tied: "issueId (longestToSolveHighPriorityOf sampleHost tiedDurations) = 2"
    "satisfactionRatingScore (longestToSolveHighPriorityOf sampleHost tiedDurations) = ''bad''"
    using k(4,5) unfolding k1 by simp_all
  define l where "l = highPriorityClosed sampleHost unparsedSecond"
  have l: "l = unparsedSecond"
    unfolding l_def by (rule highPriorityClosed_unparsedSecond)
  have ids2: "map id' l = [1, 2, 3]"
    unfolding l by (simp add: unparsedSecond_def ticket_def)
  have ts: "map (timeDiffMs sampleHost) l = [Num 7200000, NaN, Num 36000000]"
    unfolding l by (rule durations_unparsedSecond)
  have len: "length l = 3"
    using ids2 by (metis length_map length_Cons list.size(3) numeral_3_eq_3)
  have nth: "timeDiffMs sampleHost (l ! j) = [Num 7200000, NaN, Num 36000000] ! j"
    "id' (l ! j) = [1, 2, 3] ! j" if "j < 3" for j
    using that len nth_map[of j l "timeDiffMs sampleHost"] nth_map[of j l id']
    unfolding ts ids2 by simp_all
  obtain first others where fo: "l = first # others"
    using len by (cases l) auto
  have first: "first = l ! 0"
    unfolding fo by simp
  have parsed: "newDate sampleHost (created first) \<noteq> None \<and>
      newDate sampleHost (updated first) \<noteq> None"
    unfolding first l by (simp add: unparsedSecond_def sample_defs)
  note u = longest_to_solve[of sampleHost unparsedSecond, THEN conjunct2, THEN conjunct2,
      THEN conjunct1, THEN spec, THEN spec, THEN mp, OF conjI[OF fo[unfolded l_def] parsed]]
  obtain m where m: "m < length l" "timeDiffMs sampleHost (l ! m) \<noteq> NaN"
    "\<forall>j < length l. \<not> js_gt (timeDiffMs sampleHost (l ! j)) (timeDiffMs sampleHost (l ! m))"
    "issueId (longestToSolveHighPriorityOf sampleHost unparsedSecond) = id' (l ! m)"
    using u unfolding l_def[symmetric] by fastforce
  have "m < 3"
    using m(1) len by simp
  then consider "m = 0" | "m = 1" | "m = 2"
    by linarith
  then have m2: "m = 2"
  proof cases
    case 1
    have "\<not> js_gt (timeDiffMs sampleHost (l ! 2)) (timeDiffMs sampleHost (l ! m))"
      using m(3)[THEN spec, of 2] len by simp
    then show ?thesis
      unfolding 1 by (simp add: nth)
  next
    case 2
    then show ?thesis
      using m(2) by (simp add: nth)
  next
    case 3
    then show ?thesis .
  qed
  have second: "issueId (longestToSolveHighPriorityOf sampleHost unparsedSecond) = 3"
    unfolding m(4) m2 by (simp add: nth)
  show ?thesis
    using ne durations_tiedDurations ids tied empty b ids2 ts second
    unfolding l_def by simp
qed

end
